theory Spec2Isabelle
  imports Complex_Main
begin

section \<open>JavaScript values used by \<open>src/utils/heatmap.js\<close>\<close>

text \<open>
  A \<open>Date\<close> object is modelled by its local time value, the \<open>LocalTime(t) = t + LocalTZA\<close> of
  ECMA-262: the number of milliseconds since the midnight that began 1 January 1970 in the
  local time zone, an integer. \<open>getMonth\<close>, \<open>getFullYear\<close>, \<open>getDate\<close> and \<open>setDate\<close> are
  defined by ECMA-262 on the local time value, through the abstract operations of this
  section (Day, DayFromYear, YearFromTime, MonthFromTime, DateFromTime, WeekDay, MakeDay,
  MakeDate). The offset of the zone is taken to be constant: then two Dates compare, and
  differ, as their local time values do, which is all the source does with them besides. A
  zone that changes its offset (daylight saving) and invalid dates (a time value of \<open>NaN\<close>)
  are not modelled.
\<close>

type_synonym jsdate = int

definition msPerDay :: int where
  "msPerDay = 86400000"

definition Day :: "jsdate \<Rightarrow> int" where
  "Day t = t div msPerDay"

definition TimeWithinDay :: "jsdate \<Rightarrow> int" where
  "TimeWithinDay t = t mod msPerDay"

definition DaysInYear :: "int \<Rightarrow> int" where
  "DaysInYear y =
     (if y mod 4 \<noteq> 0 then 365
      else if y mod 100 \<noteq> 0 then 366
      else if y mod 400 \<noteq> 0 then 365
      else 366)"

definition DayFromYear :: "int \<Rightarrow> int" where
  "DayFromYear y =
     365 * (y - 1970) + (y - 1969) div 4 - (y - 1901) div 100 + (y - 1601) div 400"

text \<open>
  ECMA-262 defines \<open>YearFromTime t\<close> as the largest year \<open>y\<close> whose first day is not
  after \<open>t\<close>. It is computed here by a search downwards from a year that is not before
  the result (a year has at least 365 and at most 366 days); \<open>YearFromTime_bounds\<close> and
  \<open>YearFromTime_unique\<close> below show that the search finds that year.
\<close>

function YearFromDay_down :: "int \<Rightarrow> int \<Rightarrow> int" where
  "YearFromDay_down d y = (if DayFromYear y \<le> d then y else YearFromDay_down d (y - 1))"
  by pat_completeness auto
termination
  by (relation "measure (\<lambda>(d, y). nat (DayFromYear y - d))") (auto simp: DayFromYear_def)

definition YearFromTime :: "jsdate \<Rightarrow> int" where
  "YearFromTime t =
     YearFromDay_down (Day t) (1970 + (if 0 \<le> Day t then Day t div 365 else Day t div 366))"

definition InLeapYear :: "jsdate \<Rightarrow> int" where
  "InLeapYear t = (if DaysInYear (YearFromTime t) = 366 then 1 else 0)"

definition DayWithinYear :: "jsdate \<Rightarrow> int" where
  "DayWithinYear t = Day t - DayFromYear (YearFromTime t)"

text \<open>The month (0 = January) of day \<open>d\<close> of a year, \<open>l\<close> being 1 in a leap year.\<close>

definition MonthOfDay :: "int \<Rightarrow> int \<Rightarrow> int" where
  "MonthOfDay l d =
     (if d < 31 then 0
      else if d < 59 + l then 1
      else if d < 90 + l then 2
      else if d < 120 + l then 3
      else if d < 151 + l then 4
      else if d < 181 + l then 5
      else if d < 212 + l then 6
      else if d < 243 + l then 7
      else if d < 273 + l then 8
      else if d < 304 + l then 9
      else if d < 334 + l then 10
      else 11)"

text \<open>The day of the year on which month \<open>m\<close> starts.\<close>

definition MonthStartDay :: "int \<Rightarrow> int \<Rightarrow> int" where
  "MonthStartDay l m =
     (if m = 0 then 0
      else if m = 1 then 31
      else if m = 2 then 59 + l
      else if m = 3 then 90 + l
      else if m = 4 then 120 + l
      else if m = 5 then 151 + l
      else if m = 6 then 181 + l
      else if m = 7 then 212 + l
      else if m = 8 then 243 + l
      else if m = 9 then 273 + l
      else if m = 10 then 304 + l
      else 334 + l)"

definition MonthFromTime :: "jsdate \<Rightarrow> int" where
  "MonthFromTime t = MonthOfDay (InLeapYear t) (DayWithinYear t)"

definition DateFromTime :: "jsdate \<Rightarrow> int" where
  "DateFromTime t =
     DayWithinYear t - MonthStartDay (InLeapYear t) (MonthFromTime t) + 1"

definition WeekDay :: "jsdate \<Rightarrow> int" where
  "WeekDay t = (Day t + 4) mod 7"

definition MakeDay :: "int \<Rightarrow> int \<Rightarrow> int \<Rightarrow> int" where
  "MakeDay year month dt =
     (let ym = year + month div 12;
          mn = month mod 12
      in DayFromYear ym + MonthStartDay (if DaysInYear ym = 366 then 1 else 0) mn + dt - 1)"

definition MakeDate :: "int \<Rightarrow> int \<Rightarrow> jsdate" where
  "MakeDate day time = day * msPerDay + time"

text \<open>\<open>Date.prototype.getMonth\<close>, \<open>getFullYear\<close>, \<open>getDate\<close> and \<open>setDate\<close> (the last
  returning the new time value instead of changing the object in place).\<close>

definition Date_getMonth :: "jsdate \<Rightarrow> int" where
  "Date_getMonth t = MonthFromTime t"

definition Date_getFullYear :: "jsdate \<Rightarrow> int" where
  "Date_getFullYear t = YearFromTime t"

definition Date_getDate :: "jsdate \<Rightarrow> int" where
  "Date_getDate t = DateFromTime t"

definition Date_setDate :: "jsdate \<Rightarrow> int \<Rightarrow> jsdate" where
  "Date_setDate t dt =
     MakeDate (MakeDay (YearFromTime t) (MonthFromTime t) dt) (TimeWithinDay t)"

text \<open>
  A number is a double in JavaScript. A finite one is modelled by the real it is, and the
  result of \<open>+\<close> and of \<open>/\<close> is the exact result rounded to a double: the rounding is the
  parameter \<open>fl\<close> of the functions below that compute with numbers (IEEE 754 rounds to the
  nearest double; the theorems use of it at most that it is monotone). Division of a
  number by zero gives an infinity or \<open>NaN\<close> in JavaScript, where HOL's \<open>x / 0\<close> is \<open>0\<close>;
  the quotient \<open>value / max\<close> of \<open>getColor\<close> is therefore a value of its own type. Numbers
  that are infinite or \<open>NaN\<close> to begin with are not modelled.
\<close>

datatype quotient = NegInfinity | Finite real | PosInfinity | NaN

definition divide_js :: "(real \<Rightarrow> real) \<Rightarrow> real \<Rightarrow> real \<Rightarrow> quotient" where
  "divide_js fl x y =
     (if y \<noteq> 0 then Finite (fl (x / y))
      else if 0 < x then PosInfinity
      else if x < 0 then NegInfinity
      else NaN)"

fun less_js :: "quotient \<Rightarrow> real \<Rightarrow> bool" where
  "less_js NegInfinity b = True"
| "less_js (Finite a) b = (a < b)"
| "less_js PosInfinity b = False"
| "less_js NaN b = False"

text \<open>\<open>a || b\<close> for a string or \<open>null\<close> on the left: \<open>null\<close> and the empty string are falsy.\<close>

definition or_js :: "string option \<Rightarrow> string \<Rightarrow> string" where
  "or_js a b = (case a of None \<Rightarrow> b | Some s \<Rightarrow> if s = [] then b else s)"

datatype error = RangeError | TypeError


section \<open>The collaborators of \<open>src/utils/date.js\<close>\<close>

text \<open>
  Modelled from the spec: \<open>normalizeDate\<close>, \<open>getWeekStart\<close>, \<open>getWeekEnd\<close>,
  \<open>getMonthStart\<close> and \<open>getMonthEnd\<close> are imported from \<open>./date\<close>, which is not among the
  sources. A date-like input is represented by the \<open>Date\<close> it denotes.
  \<open>normalizeDate\<close> "collapses any date-like input to day granularity"; the other four
  give "the first/last day of the calendar week containing d" (weeks start on Sunday, as
  the test \<open>weekly start and end dates\<close> has it) and "the first/last day of the calendar
  month containing d".
\<close>

definition normalizeDate :: "jsdate \<Rightarrow> jsdate" where
  "normalizeDate d = MakeDate (Day d) 0"

definition getWeekStart :: "jsdate \<Rightarrow> jsdate" where
  "getWeekStart d = MakeDate (Day d - WeekDay d) 0"

definition getWeekEnd :: "jsdate \<Rightarrow> jsdate" where
  "getWeekEnd d = MakeDate (Day d + (6 - WeekDay d)) 0"

definition getMonthStart :: "jsdate \<Rightarrow> jsdate" where
  "getMonthStart d = MakeDate (MakeDay (YearFromTime d) (MonthFromTime d) 1) 0"

definition getMonthEnd :: "jsdate \<Rightarrow> jsdate" where
  "getMonthEnd d = MakeDate (MakeDay (YearFromTime d) (MonthFromTime d + 1) 0) 0"


section \<open>\<open>src/utils/heatmap.js\<close>\<close>

text \<open>An observation \<open>{ date, value }\<close>, which is also what \<open>getDay\<close> returns, and a day
  of the calendar \<open>{ color, date, value }\<close>.\<close>

record datum =
  date :: jsdate
  value' :: real

record day = datum +
  color :: string

subsection \<open>\<open>chunkMonths\<close> and \<open>chunkWeeks\<close>\<close>

text \<open>The test both functions make before they push a day onto the last row. An absent
  bound is \<open>None\<close>; it is falsy in the source, where a bound that is given is a \<open>Date\<close>
  once it is normalized, and truthy.\<close>

definition inBounds :: "bool \<Rightarrow> jsdate option \<Rightarrow> jsdate option \<Rightarrow> day \<Rightarrow> bool" where
  "inBounds allowOverflow startDate endDate d =
     (allowOverflow \<or>
       ((case startDate of None \<Rightarrow> True | Some s \<Rightarrow> s \<le> date d) \<and>
        (case endDate of None \<Rightarrow> True | Some e \<Rightarrow> date d \<le> e)))"

text \<open>\<open>acc[acc.length - 1].push(day)\<close>: with no row to push onto, \<open>acc[-1]\<close> is
  \<open>undefined\<close> and the call throws a \<open>TypeError\<close>.\<close>

definition push_last :: "'a \<Rightarrow> 'a list list \<Rightarrow> error + 'a list list" where
  "push_last x acc = (if acc = [] then Inl TypeError else Inr (butlast acc @ [last acc @ [x]]))"

text \<open>The callback of \<open>calendar.reduce\<close> in \<open>chunkMonths\<close>, run over the calendar; the
  variable \<open>prevMonth\<close> it shares is part of the state.\<close>

fun chunkMonths_reduce ::
  "bool \<Rightarrow> jsdate option \<Rightarrow> jsdate option \<Rightarrow> int \<Rightarrow> day list list \<Rightarrow> day list
     \<Rightarrow> error + day list list" where
  "chunkMonths_reduce allowOverflow startDate endDate prevMonth acc [] = Inr acc"
| "chunkMonths_reduce allowOverflow startDate endDate prevMonth acc (d # calendar) =
     (let currentMonth = Date_getMonth (date d);
          acc1 = (if prevMonth \<noteq> currentMonth then acc @ [[]] else acc);
          prevMonth1 = (if prevMonth \<noteq> currentMonth then currentMonth else prevMonth)
      in if inBounds allowOverflow startDate endDate d
         then (case push_last d acc1 of
                 Inl e \<Rightarrow> Inl e
               | Inr acc2 \<Rightarrow>
                   chunkMonths_reduce allowOverflow startDate endDate prevMonth1 acc2 calendar)
         else chunkMonths_reduce allowOverflow startDate endDate prevMonth1 acc1 calendar)"

definition chunkMonths ::
  "bool \<Rightarrow> day list \<Rightarrow> jsdate option \<Rightarrow> jsdate option \<Rightarrow> error + day list list" where
  "chunkMonths allowOverflow calendar endDate startDate =
     (case chunkMonths_reduce allowOverflow
             (map_option normalizeDate startDate) (map_option normalizeDate endDate)
             (- 1) [] calendar of
        Inl e \<Rightarrow> Inl e
      | Inr acc \<Rightarrow> Inr (filter (\<lambda>month. length month \<noteq> 0) acc))"

text \<open>The callback of \<open>calendar.reduce\<close> in \<open>chunkWeeks\<close>, with the index of the entry.\<close>

fun chunkWeeks_reduce ::
  "bool \<Rightarrow> jsdate option \<Rightarrow> jsdate option \<Rightarrow> day list list \<Rightarrow> nat \<Rightarrow> day list
     \<Rightarrow> error + day list list" where
  "chunkWeeks_reduce allowOverflow startDate endDate acc index [] = Inr acc"
| "chunkWeeks_reduce allowOverflow startDate endDate acc index (d # calendar) =
     (let acc1 = (if index mod 7 = 0 then acc @ [[]] else acc)
      in if inBounds allowOverflow startDate endDate d
         then (case push_last d acc1 of
                 Inl e \<Rightarrow> Inl e
               | Inr acc2 \<Rightarrow>
                   chunkWeeks_reduce allowOverflow startDate endDate acc2 (index + 1) calendar)
         else chunkWeeks_reduce allowOverflow startDate endDate acc1 (index + 1) calendar)"

definition chunkWeeks ::
  "bool \<Rightarrow> day list \<Rightarrow> jsdate option \<Rightarrow> jsdate option \<Rightarrow> error + day list list" where
  "chunkWeeks allowOverflow calendar endDate startDate =
     (case chunkWeeks_reduce allowOverflow
             (map_option normalizeDate startDate) (map_option normalizeDate endDate)
             [] 0 calendar of
        Inl e \<Rightarrow> Inl e
      | Inr acc \<Rightarrow> Inr (filter (\<lambda>week. length week \<noteq> 0) acc))"

subsection \<open>\<open>getColor\<close>\<close>

text \<open>The \<open>for\<close> loop of \<open>getColor\<close>, from index \<open>i\<close> with the current \<open>color\<close>.\<close>

function getColor_loop ::
  "(real \<Rightarrow> real) \<Rightarrow> string list \<Rightarrow> quotient \<Rightarrow> string \<Rightarrow> nat \<Rightarrow> string" where
  "getColor_loop fl colors intencity color' i =
     (if i < length colors
      then (if less_js intencity (fl (real i / real (length colors))) then color'
            else getColor_loop fl colors intencity (colors ! i) (i + 1))
      else colors ! (length colors - 1))"
  by pat_completeness auto
termination
  by (relation "measure (\<lambda>(fl, colors, intencity, color', i). length colors - i)") auto

definition getColor :: "(real \<Rightarrow> real) \<Rightarrow> string list \<Rightarrow> real \<Rightarrow> real \<Rightarrow> string option" where
  "getColor fl colors max' v =
     (if length colors \<noteq> 0 \<and> v \<noteq> 0
      then Some (getColor_loop fl colors (divide_js fl v max') (colors ! 0) 1)
      else None)"

subsection \<open>\<open>getDay\<close>\<close>

definition getDay ::
  "(real \<Rightarrow> real) \<Rightarrow> datum list \<Rightarrow> int \<Rightarrow> jsdate \<Rightarrow> int \<Rightarrow> datum" where
  "getDay fl data offset startDate startDayOfMonth =
     (let date1 = Date_setDate startDate (startDayOfMonth + offset);
          nextDate = Date_setDate date1 (Date_getDate date1 + 1);
          v = foldl (\<lambda>acc obj.
                let datapoint = normalizeDate (date obj)
                in if date1 \<le> datapoint \<and> datapoint < nextDate
                   then fl (acc + value' obj) else acc)
              0 data
      in \<lparr>date = date1, value' = v\<rparr>)"

subsection \<open>\<open>getCalendar\<close>\<close>

text \<open>
  What a caller gives as \<open>startDate\<close> or \<open>endDate\<close>: a \<open>Date\<close>, a number or a string. One that
  is truthy is represented by the \<open>Date\<close> it denotes; the number 0 and the empty string are
  given, and falsy. A date that is absent (\<open>undefined\<close>, or \<open>null\<close>) is \<open>None\<close>.
\<close>

datatype dateLike = DateLike jsdate | NumberZero | EmptyString

text \<open>Lines 94 and 95, \<open>x ? normalizeDate(x) : new Date()\<close>: a date that is truthy is
  normalized, one that is falsy or absent is replaced by the current moment \<open>now\<close> (the
  result of \<open>new Date()\<close>), which is not normalized.\<close>

definition resolveDate :: "dateLike option \<Rightarrow> jsdate \<Rightarrow> jsdate" where
  "resolveDate d now =
     (case d of
        Some (DateLike x) \<Rightarrow> normalizeDate x
      | Some NumberZero \<Rightarrow> now
      | Some EmptyString \<Rightarrow> now
      | None \<Rightarrow> now)"

text \<open>Lines 97 to 103: the first and the last day of the calendar.\<close>

definition widen :: "string \<Rightarrow> jsdate \<Rightarrow> jsdate \<Rightarrow> jsdate \<times> jsdate" where
  "widen view startDate endDate =
     (if view = ''monthly'' then (getMonthStart startDate, getMonthEnd endDate)
      else (getWeekStart startDate, getWeekEnd endDate))"

text \<open>Line 107.\<close>

definition totalDays :: "jsdate \<Rightarrow> jsdate \<Rightarrow> int" where
  "totalDays startDate endDate = (endDate - startDate) div 86400000 + 1"

text \<open>The first \<open>map\<close> of line 109 to 119 gives the days; \<open>max\<close> is the greatest value
  among them, or 0.\<close>

definition aggregate :: "(real \<Rightarrow> real) \<Rightarrow> datum list \<Rightarrow> jsdate \<Rightarrow> nat \<Rightarrow> datum list" where
  "aggregate fl data startDate n =
     map (\<lambda>offset. getDay fl data (int offset) startDate (Date_getDate startDate)) [0..<n]"

definition maxValue :: "'a datum_scheme list \<Rightarrow> real" where
  "maxValue days = foldl (\<lambda>m d. if m < value' d then value' d else m) 0 days"

text \<open>
  \<open>getCalendar\<close>; \<open>nowS\<close> and \<open>nowE\<close> are what the clock shows at line 94 and at line 95.
  \<open>new Array(totalDays)\<close> throws a \<open>RangeError\<close> unless \<open>totalDays\<close> is an array length.
\<close>

definition getCalendar ::
  "(real \<Rightarrow> real) \<Rightarrow> string list \<Rightarrow> datum list \<Rightarrow> string \<Rightarrow> dateLike option
     \<Rightarrow> dateLike option \<Rightarrow> string \<Rightarrow> jsdate \<Rightarrow> jsdate \<Rightarrow> error + day list" where
  "getCalendar fl colors data emptyColor endDate startDate view nowS nowE =
     (let (startDate1, endDate1) =
            widen view (resolveDate startDate nowS) (resolveDate endDate nowE);
          n = totalDays startDate1 endDate1
      in if n < 0 \<or> 4294967295 < n then Inl RangeError
         else
           (let days = aggregate fl data startDate1 (nat n);
                max' = maxValue days
            in Inr (map (\<lambda>d. \<lparr>date = date d, value' = value' d,
                                color = or_js (getColor fl colors max' (value' d)) emptyColor\<rparr>)
                      days)))"


section \<open>Notions of the specification\<close>


text \<open>"Day \<open>i+1\<close>'s date is exactly one day after day \<open>i\<close>'s date."\<close>

fun contiguous :: "'a datum_scheme list \<Rightarrow> bool" where
  "contiguous (a # b # ds) = (date b = date a + msPerDay \<and> contiguous (b # ds))"
| "contiguous ds = True"

text \<open>Two days of the same calendar month: the same month of the same year.\<close>

definition sameMonth :: "'a datum_scheme \<Rightarrow> 'a datum_scheme \<Rightarrow> bool" where
  "sameMonth a b =
     (Date_getFullYear (date a) = Date_getFullYear (date b) \<and>
      Date_getMonth (date a) = Date_getMonth (date b))"

text \<open>Months counted from the year 0: equal for two dates of the same calendar month.\<close>

definition yearMonth :: "jsdate \<Rightarrow> int" where
  "yearMonth t = 12 * YearFromTime t + MonthFromTime t"

text \<open>Days to run the functions on: day \<open>i\<close> after the epoch, and \<open>n\<close> days from day \<open>i\<close>.\<close>

definition exampleDay :: "int \<Rightarrow> day" where
  "exampleDay i = \<lparr>date = i * msPerDay, value' = 0, color = ''#000''\<rparr>"

definition exampleCalendar :: "int \<Rightarrow> nat \<Rightarrow> day list" where
  "exampleCalendar i n = map (\<lambda>k. exampleDay (i + int k)) [0..<n]"

text \<open>The observations of the specification's example: 1 and 2 on 15 January 2020, 5 on
  the 16th.\<close>

definition exampleData :: "datum list" where
  "exampleData =
     [\<lparr>date = 1579046400000, value' = 1\<rparr>, \<lparr>date = 1579046400000, value' = 2\<rparr>,
      \<lparr>date = 1579132800000, value' = 5\<rparr>]"

declare YearFromDay_down.simps [simp del]

declare getColor_loop.simps [simp del]


section \<open>Calendar arithmetic\<close>

lemma div_step:
  fixes a n :: int
  assumes "0 < n"
  shows "(a + 1) div n = a div n + (if (a + 1) mod n = 0 then 1 else 0)"
proof (cases "a mod n + 1 = n")
  case True
  have "a = n * (a div n) + a mod n" by simp
  then have "a + 1 = n * (a div n) + n" using True by linarith
  then have "a + 1 = n * (a div n + 1) + 0" by (simp add: algebra_simps)
  from int_div_pos_eq [OF this] int_mod_pos_eq [OF this] assms show ?thesis by simp
next
  case False
  have r: "0 \<le> a mod n + 1" "a mod n + 1 < n"
    using False pos_mod_bound [OF assms, of a] pos_mod_sign [OF assms, of a] by linarith+
  have "a = n * (a div n) + a mod n" by simp
  then have "a + 1 = n * (a div n) + (a mod n + 1)" by linarith
  from int_div_pos_eq [OF this r] int_mod_pos_eq [OF this r] pos_mod_sign [OF assms, of a]
  show ?thesis by simp
qed

lemma less_mult_div_Suc:
  fixes d n :: int
  assumes "0 < n"
  shows "d < n * (d div n + 1)"
proof -
  have "d mod n < n" using assms by simp
  moreover have "n * (d div n) + d mod n = d" by simp
  ultimately have "d < n * (d div n) + n" by linarith
  then show ?thesis by (simp add: distrib_left)
qed

lemma mod_shift:
  fixes y k n :: int
  assumes "k mod n = 0"
  shows "(y - k) mod n = y mod n"
  using mod_diff_right_eq [of y k n] assms by simp

lemma DayFromYear_Suc: "DayFromYear (y + 1) = DayFromYear y + DaysInYear y"
proof -
  have a: "(y + 1 - 1969) div 4 = (y - 1969) div 4 + (if y mod 4 = 0 then 1 else 0)"
    using div_step [of 4 "y - 1969"] mod_shift [of 1968 4 y] by (simp add: algebra_simps)
  have b: "(y + 1 - 1901) div 100 = (y - 1901) div 100 + (if y mod 100 = 0 then 1 else 0)"
    using div_step [of 100 "y - 1901"] mod_shift [of 1900 100 y] by (simp add: algebra_simps)
  have c: "(y + 1 - 1601) div 400 = (y - 1601) div 400 + (if y mod 400 = 0 then 1 else 0)"
    using div_step [of 400 "y - 1601"] mod_shift [of 1600 400 y] by (simp add: algebra_simps)
  have d: "y mod 400 = 0 \<Longrightarrow> y mod 100 = 0" "y mod 100 = 0 \<Longrightarrow> y mod 4 = 0"
    using mod_mod_cancel [of 100 400 y] mod_mod_cancel [of 4 100 y] by auto
  show ?thesis
    unfolding DayFromYear_def DaysInYear_def a b c using d by auto
qed

lemma DaysInYear_cases: "DaysInYear y = 365 \<or> DaysInYear y = 366"
  by (simp add: DaysInYear_def)

lemma DayFromYear_1970: "DayFromYear 1970 = 0"
  by (simp add: DayFromYear_def)

lemma DayFromYear_lower_pos: "0 \<le> j \<Longrightarrow> 365 * j \<le> DayFromYear (1970 + j)"
proof (induction j rule: int_ge_induct)
  case base
  show ?case by (simp add: DayFromYear_1970)
next
  case (step i)
  have "DayFromYear (1970 + (i + 1)) = DayFromYear (1970 + i) + DaysInYear (1970 + i)"
    using DayFromYear_Suc [of "1970 + i"] by (simp add: add.assoc)
  with step DaysInYear_cases [of "1970 + i"] show ?case by auto
qed

lemma DayFromYear_lower_neg: "j \<le> 0 \<Longrightarrow> 366 * j \<le> DayFromYear (1970 + j)"
proof (induction j rule: int_le_induct)
  case base
  show ?case by (simp add: DayFromYear_1970)
next
  case (step i)
  have "DayFromYear (1970 + i) = DayFromYear (1970 + (i - 1)) + DaysInYear (1970 + (i - 1))"
    using DayFromYear_Suc [of "1970 + (i - 1)"] by simp
  with step DaysInYear_cases [of "1970 + (i - 1)"] show ?case by auto
qed

lemma YearFromDay_down_bounds:
  "d < DayFromYear (y + 1) \<Longrightarrow>
   DayFromYear (YearFromDay_down d y) \<le> d \<and> d < DayFromYear (YearFromDay_down d y + 1)"
proof (induction d y rule: YearFromDay_down.induct)
  case (1 d y)
  show ?case
  proof (cases "DayFromYear y \<le> d")
    case True
    with "1.prems" show ?thesis by (simp add: YearFromDay_down.simps [of d y])
  next
    case False
    then have "d < DayFromYear (y - 1 + 1)" by simp
    with "1.IH" False show ?thesis by (simp add: YearFromDay_down.simps [of d y])
  qed
qed

lemma YearFromTime_bounds:
  "DayFromYear (YearFromTime t) \<le> Day t \<and> Day t < DayFromYear (YearFromTime t + 1)"
proof -
  let ?d = "Day t"
  let ?y = "1970 + (if 0 \<le> ?d then ?d div 365 else ?d div 366)"
  have "?d < DayFromYear (?y + 1)"
  proof (cases "0 \<le> ?d")
    case True
    then have "0 \<le> ?d div 365 + 1" by (simp add: pos_imp_zdiv_nonneg_iff)
    from DayFromYear_lower_pos [OF this]
    have "365 * (?d div 365 + 1) \<le> DayFromYear (1970 + (?d div 365 + 1))" .
    moreover have "?d < 365 * (?d div 365 + 1)" by (rule less_mult_div_Suc) simp
    ultimately show ?thesis using True by (simp add: add.assoc)
  next
    case False
    then have "?d div 366 < 0" by (simp add: div_neg_pos_less0)
    then have "?d div 366 + 1 \<le> 0" by simp
    from DayFromYear_lower_neg [OF this]
    have "366 * (?d div 366 + 1) \<le> DayFromYear (1970 + (?d div 366 + 1))" .
    moreover have "?d < 366 * (?d div 366 + 1)" by (rule less_mult_div_Suc) simp
    ultimately show ?thesis using False by (simp add: add.assoc)
  qed
  from YearFromDay_down_bounds [OF this] show ?thesis
    by (simp add: YearFromTime_def)
qed

lemma DayFromYear_mono: "y \<le> z \<Longrightarrow> DayFromYear y \<le> DayFromYear z"
proof (induction z rule: int_ge_induct)
  case base
  show ?case by simp
next
  case (step i)
  with DayFromYear_Suc [of i] DaysInYear_cases [of i] show ?case by auto
qed

lemma YearFromTime_unique:
  assumes "DayFromYear y \<le> Day t" "Day t < DayFromYear (y + 1)"
  shows "YearFromTime t = y"
proof (rule ccontr)
  assume ne: "YearFromTime t \<noteq> y"
  let ?Y = "YearFromTime t"
  note b = YearFromTime_bounds [of t]
  show False
  proof (cases "?Y < y")
    case True
    then have "DayFromYear (?Y + 1) \<le> DayFromYear y" by (intro DayFromYear_mono) simp
    with b assms show False by simp
  next
    case False
    with ne have "DayFromYear (y + 1) \<le> DayFromYear ?Y" by (intro DayFromYear_mono) simp
    with b assms show False by simp
  qed
qed


lemma InLeapYear_eq: "InLeapYear t = DaysInYear (YearFromTime t) - 365"
  using DaysInYear_cases [of "YearFromTime t"] by (auto simp: InLeapYear_def)

lemma InLeapYear_cases: "InLeapYear t = 0 \<or> InLeapYear t = 1"
  by (simp add: InLeapYear_def)

lemma MonthOfDay_range: "0 \<le> MonthOfDay l d \<and> MonthOfDay l d \<le> 11"
  by (simp add: MonthOfDay_def)

lemma MonthOfDay_mono: "d \<le> d' \<Longrightarrow> MonthOfDay l d \<le> MonthOfDay l d'"
  by (simp add: MonthOfDay_def)

lemma MonthOfDay_first: "0 \<le> l \<Longrightarrow> MonthOfDay l 0 = 0"
  by (simp add: MonthOfDay_def)

lemma MonthOfDay_last: "0 \<le> l \<Longrightarrow> MonthOfDay l (364 + l) = 11"
  by (simp add: MonthOfDay_def)




lemma MonthFromTime_range: "0 \<le> MonthFromTime t \<and> MonthFromTime t \<le> 11"
  by (simp add: MonthFromTime_def MonthOfDay_range)


lemma MakeDay_same_month:
  "MakeDay (YearFromTime t) (MonthFromTime t) dt = Day t - DateFromTime t + dt"
proof -
  have "MonthFromTime t div 12 = 0" "MonthFromTime t mod 12 = MonthFromTime t"
    using MonthFromTime_range [of t] by simp_all
  then show ?thesis
    by (simp add: MakeDay_def DateFromTime_def DayWithinYear_def InLeapYear_def)
qed

lemma Date_setDate_eq: "Date_setDate t dt = t + (dt - Date_getDate t) * msPerDay"
proof -
  have "t = Day t * msPerDay + TimeWithinDay t"
    by (simp add: Day_def TimeWithinDay_def)
  then show ?thesis
    by (simp add: Date_setDate_def Date_getDate_def MakeDay_same_month MakeDate_def algebra_simps)
qed

lemma Day_add_days: "Day (t + k * msPerDay) = Day t + k"
  by (simp add: Day_def msPerDay_def)

lemma Day_MakeDate: "Day (MakeDate d 0) = d"
  by (simp add: Day_def MakeDate_def msPerDay_def)

lemma next_day_cases:
  fixes t :: jsdate
  defines "u \<equiv> t + msPerDay"
  shows "(YearFromTime u = YearFromTime t \<and> DayWithinYear u = DayWithinYear t + 1) \<or>
         (YearFromTime u = YearFromTime t + 1 \<and> DayWithinYear u = 0 \<and>
          DayWithinYear t = DaysInYear (YearFromTime t) - 1)"
proof -
  let ?Y = "YearFromTime t"
  have du: "Day u = Day t + 1"
    using Day_add_days [of t 1] by (simp add: u_def)
  note b = YearFromTime_bounds [of t]
  show ?thesis
  proof (cases "Day t + 1 < DayFromYear (?Y + 1)")
    case True
    with b du have "YearFromTime u = ?Y"
      by (intro YearFromTime_unique) simp_all
    then show ?thesis by (simp add: DayWithinYear_def du)
  next
    case False
    with b have eq: "Day t + 1 = DayFromYear (?Y + 1)" by simp
    have "DayFromYear (?Y + 1) < DayFromYear (?Y + 1 + 1)"
      using DayFromYear_Suc [of "?Y + 1"] DaysInYear_cases [of "?Y + 1"] by auto
    with eq du have "YearFromTime u = ?Y + 1"
      by (intro YearFromTime_unique) simp_all
    then show ?thesis
      using eq DayFromYear_Suc [of ?Y] by (simp add: DayWithinYear_def du)
  qed
qed

lemma yearMonth_eq_iff:
  "yearMonth t = yearMonth u \<longleftrightarrow>
     YearFromTime t = YearFromTime u \<and> MonthFromTime t = MonthFromTime u"
  using MonthFromTime_range [of t] MonthFromTime_range [of u]
  unfolding yearMonth_def by presburger

lemma yearMonth_next:
  fixes t :: jsdate
  defines "u \<equiv> t + msPerDay"
  shows "yearMonth t \<le> yearMonth u"
    and "MonthFromTime u = MonthFromTime t \<Longrightarrow> yearMonth u = yearMonth t"
    and "MonthFromTime u \<noteq> MonthFromTime t \<Longrightarrow> yearMonth t < yearMonth u"
proof -
  have l: "0 \<le> InLeapYear t" "0 \<le> InLeapYear u"
    using InLeapYear_cases [of t] InLeapYear_cases [of u] by auto
  consider
    (same) "YearFromTime u = YearFromTime t" "DayWithinYear u = DayWithinYear t + 1"
  | (new) "YearFromTime u = YearFromTime t + 1" "DayWithinYear u = 0"
          "DayWithinYear t = DaysInYear (YearFromTime t) - 1"
    using next_day_cases [of t] by (auto simp: u_def)
  then have "yearMonth t \<le> yearMonth u \<and>
      (MonthFromTime u = MonthFromTime t \<longrightarrow> yearMonth u = yearMonth t) \<and>
      (MonthFromTime u \<noteq> MonthFromTime t \<longrightarrow> yearMonth t < yearMonth u)"
  proof cases
    case same
    then have "InLeapYear u = InLeapYear t" by (simp add: InLeapYear_def)
    with same MonthOfDay_mono [of "DayWithinYear t" "DayWithinYear t + 1" "InLeapYear t"]
    show ?thesis by (auto simp: yearMonth_def MonthFromTime_def)
  next
    case new
    have "DayWithinYear t = 364 + InLeapYear t"
      using new(3) by (simp add: InLeapYear_eq)
    then have "MonthFromTime t = 11" "MonthFromTime u = 0"
      using l new(2) by (simp_all add: MonthFromTime_def MonthOfDay_first MonthOfDay_last)
    with new show ?thesis by (simp add: yearMonth_def)
  qed
  then show "yearMonth t \<le> yearMonth u"
    and "MonthFromTime u = MonthFromTime t \<Longrightarrow> yearMonth u = yearMonth t"
    and "MonthFromTime u \<noteq> MonthFromTime t \<Longrightarrow> yearMonth t < yearMonth u"
    by simp_all
qed

lemma sameMonth_yearMonth: "sameMonth a b \<longleftrightarrow> yearMonth (date a) = yearMonth (date b)"
  by (simp add: sameMonth_def yearMonth_eq_iff Date_getFullYear_def Date_getMonth_def)

subsection \<open>Lists of rows\<close>

lemma push_last_Inr: "acc \<noteq> [] \<Longrightarrow> push_last x acc = Inr (butlast acc @ [last acc @ [x]])"
  by (simp add: push_last_def)

lemma concat_push: "acc \<noteq> [] \<Longrightarrow> concat (butlast acc @ [last acc @ [x]]) = concat acc @ [x]"
proof -
  assume "acc \<noteq> []"
  then have "concat acc = concat (butlast acc @ [last acc])" by simp
  then show ?thesis by simp
qed

lemma map_filter_push:
  assumes "acc \<noteq> []"
  shows "map (filter P) (butlast acc @ [last acc @ [x]]) =
         (if P x then butlast (map (filter P) acc) @ [last (map (filter P) acc) @ [x]]
          else map (filter P) acc)"
proof -
  have "map (filter P) acc = map (filter P) (butlast acc @ [last acc])"
    using assms by simp
  then have "map (filter P) acc = map (filter P) (butlast acc) @ [filter P (last acc)]"
    by simp
  then show ?thesis
    using assms by (simp add: map_butlast last_map)
qed

lemma last_concat_rows:
  assumes "R \<noteq> []" "last R \<noteq> []"
  shows "last (concat R) = last (last R)"
proof -
  have "concat (butlast R @ [last R]) = concat (butlast R) @ last R" by simp
  then have "concat R = concat (butlast R) @ last R" using assms by simp
  then show ?thesis using assms by simp
qed

lemma nth_concat_block:
  "k < length R \<Longrightarrow> (\<forall>j<k. length (R ! j) = m) \<Longrightarrow>
   R ! k = take (length (R ! k)) (drop (m * k) (concat R))"
proof (induction R arbitrary: k)
  case Nil
  then show ?case by simp
next
  case (Cons r R)
  show ?case
  proof (cases k)
    case 0
    then show ?thesis by simp
  next
    case (Suc k')
    with Cons.prems have len: "length r = m" by auto
    from Cons.prems Suc have "k' < length R" "\<forall>j<k'. length (R ! j) = m" by auto
    from Cons.IH [OF this] Suc len show ?thesis by simp
  qed
qed

section \<open>The rows of \<open>chunkWeeks\<close> and \<open>chunkMonths\<close>\<close>

lemma chunkWeeks_reduce_append:
  "chunkWeeks_reduce ao s e acc i (xs @ ys) =
     (case chunkWeeks_reduce ao s e acc i xs of
        Inl er \<Rightarrow> Inl er
      | Inr acc' \<Rightarrow> chunkWeeks_reduce ao s e acc' (i + length xs) ys)"
  by (induction xs arbitrary: acc i) (simp_all add: Let_def split: sum.splits)

lemma week_arith_new:
  fixes n k :: nat
  assumes "n mod 7 = 0"
  shows "(Suc n + 6) div 7 = Suc ((n + 6) div 7)"
    and "k < (n + 6) div 7 \<Longrightarrow> 7 * k + 7 \<le> n"
    and "7 * ((n + 6) div 7) = n"
  using assms by presburger+

lemma week_arith_same:
  fixes n k :: nat
  assumes "n mod 7 \<noteq> 0"
  shows "(Suc n + 6) div 7 = (n + 6) div 7"
    and "Suc k < (n + 6) div 7 \<Longrightarrow> 7 * k + 7 \<le> n"
    and "\<exists>m. (n + 6) div 7 = Suc m \<and> 7 * m < n \<and> n < 7 * m + 7"
  using assms by presburger+

lemma chunkWeeks_reduce_full:
  "\<exists>R. chunkWeeks_reduce True s e [] 0 cal = Inr R \<and> concat R = cal \<and>
       (\<forall>r\<in>set R. r \<noteq> []) \<and> length R = (length cal + 6) div 7 \<and>
       (\<forall>k<length R. length (R ! k) = min 7 (length cal - 7 * k))"
proof (induction cal rule: rev_induct)
  case Nil
  show ?case by simp
next
  case (snoc x cal)
  then obtain R where R: "chunkWeeks_reduce True s e [] 0 cal = Inr R" "concat R = cal"
    "\<forall>r\<in>set R. r \<noteq> []" "length R = (length cal + 6) div 7"
    "\<forall>k<length R. length (R ! k) = min 7 (length cal - 7 * k)"
    by blast
  let ?n = "length cal"
  have run: "chunkWeeks_reduce True s e [] 0 (cal @ [x]) = chunkWeeks_reduce True s e R ?n [x]"
    by (simp add: chunkWeeks_reduce_append R(1))
  show ?case
  proof (cases "?n mod 7 = 0")
    case True
    let ?R = "R @ [[x]]"
    have "chunkWeeks_reduce True s e [] 0 (cal @ [x]) = Inr ?R"
      by (simp add: run True inBounds_def push_last_def)
    moreover have "concat ?R = cal @ [x]" by (simp add: R(2))
    moreover have "\<forall>r\<in>set ?R. r \<noteq> []" using R(3) by simp
    moreover have "length ?R = (length (cal @ [x]) + 6) div 7"
      using week_arith_new(1) [OF True] R(4) by simp
    moreover have "\<forall>k<length ?R. length (?R ! k) = min 7 (length (cal @ [x]) - 7 * k)"
    proof (intro allI impI)
      fix k assume k: "k < length ?R"
      show "length (?R ! k) = min 7 (length (cal @ [x]) - 7 * k)"
      proof (cases "k < length R")
        case True
        with R(4) R(5) week_arith_new(2) [OF \<open>?n mod 7 = 0\<close>, of k] show ?thesis
          by (simp add: nth_append min_def)
      next
        case False
        with k have "k = length R" by simp
        with R(4) week_arith_new(3) [OF \<open>?n mod 7 = 0\<close>] show ?thesis
          by (simp add: nth_append)
      qed
    qed
    ultimately show ?thesis by blast
  next
    case False
    note ar = week_arith_same [OF False]
    from ar(3) obtain m where m: "(?n + 6) div 7 = Suc m" "7 * m < ?n" "?n < 7 * m + 7"
      by blast
    have ne: "R \<noteq> []" using m(1) R(4) by auto
    let ?R = "butlast R @ [last R @ [x]]"
    have "chunkWeeks_reduce True s e [] 0 (cal @ [x]) = Inr ?R"
      using ne by (simp add: run False inBounds_def push_last_def)
    moreover have "concat ?R = cal @ [x]" using concat_push [OF ne] by (simp add: R(2))
    moreover have "\<forall>r\<in>set ?R. r \<noteq> []"
      using R(3) by (auto dest: in_set_butlastD)
    moreover have len: "length ?R = length R" using ne by simp
    moreover have "length R = (length (cal @ [x]) + 6) div 7"
      using ar(1) R(4) by simp
    moreover have "\<forall>k<length ?R. length (?R ! k) = min 7 (length (cal @ [x]) - 7 * k)"
    proof (intro allI impI)
      fix k assume k: "k < length ?R"
      show "length (?R ! k) = min 7 (length (cal @ [x]) - 7 * k)"
      proof (cases "Suc k < length R")
        case True
        then have kb: "k < length R - 1" "k < length R" by simp_all
        then have "?R ! k = R ! k" by (simp add: nth_append nth_butlast)
        then show ?thesis
          using R(4) R(5) ar(2) [of k] True kb by (simp add: min_def)
      next
        case False
        with k len have keq: "k = m" using R(4) m(1) by simp
        have "?R ! m = last R @ [x]" using R(4) m(1) by (simp add: nth_append)
        moreover have "last R = R ! m" using last_conv_nth [OF ne] R(4) m(1) by simp
        moreover have "length (R ! m) = min 7 (?n - 7 * m)" using R(4) R(5) m(1) by simp
        moreover have "min 7 (?n - 7 * m) = ?n - 7 * m" using m(2,3) by linarith
        moreover have "min 7 (Suc ?n - 7 * m) = Suc (?n - 7 * m)" using m(2,3) by linarith
        ultimately show ?thesis
          using keq by simp
      qed
    qed
    ultimately show ?thesis by auto
  qed
qed

lemma chunkWeeks_reduce_filter:
  "i mod 7 = 0 \<or> A \<noteq> [] \<Longrightarrow>
   \<exists>R. chunkWeeks_reduce True s e A i cal = Inr R \<and>
       chunkWeeks_reduce ao s e (map (filter (inBounds ao s e)) A) i cal =
         Inr (map (filter (inBounds ao s e)) R)"
proof (induction cal arbitrary: A i)
  case Nil
  show ?case by simp
next
  case (Cons d cal)
  let ?P = "inBounds ao s e"
  let ?A1 = "if i mod 7 = 0 then A @ [[]] else A"
  let ?A2 = "butlast ?A1 @ [last ?A1 @ [d]]"
  have ne: "?A1 \<noteq> []" using Cons.prems by auto
  have t: "chunkWeeks_reduce True s e A i (d # cal) = chunkWeeks_reduce True s e ?A2 (i + 1) cal"
    using ne by (simp add: inBounds_def push_last_def)
  have m1: "(if i mod 7 = 0 then map (filter ?P) A @ [[]] else map (filter ?P) A) =
            map (filter ?P) ?A1"
    by simp
  have f: "chunkWeeks_reduce ao s e (map (filter ?P) A) i (d # cal) =
           chunkWeeks_reduce ao s e (map (filter ?P) ?A2) (i + 1) cal"
  proof (cases "?P d")
    case True
    have "push_last d (map (filter ?P) ?A1) = Inr (map (filter ?P) ?A2)"
      using ne True map_filter_push [OF ne, of ?P d] by (simp add: push_last_def)
    then show ?thesis
      using True by (simp only: chunkWeeks_reduce.simps Let_def m1 if_True sum.case)
  next
    case False
    have "map (filter ?P) ?A2 = map (filter ?P) ?A1"
      using False map_filter_push [OF ne, of ?P d] by simp
    then show ?thesis
      using False by (simp only: chunkWeeks_reduce.simps Let_def m1 if_False)
  qed
  have "(i + 1) mod 7 = 0 \<or> ?A2 \<noteq> []" by simp
  from Cons.IH [OF this] t f show ?case by simp
qed

lemma chunkWeeks_rows:
  fixes ao :: bool and cal :: "day list" and sb eb :: "jsdate option"
  defines "P \<equiv> inBounds ao (map_option normalizeDate sb) (map_option normalizeDate eb)"
  obtains R where "chunkWeeks True cal eb sb = Inr R"
    and "concat R = cal"
    and "\<forall>r\<in>set R. r \<noteq> []"
    and "length R = (length cal + 6) div 7"
    and "\<forall>k<length R. length (R ! k) = min 7 (length cal - 7 * k)"
    and "chunkWeeks ao cal eb sb = Inr (filter (\<lambda>r. r \<noteq> []) (map (filter P) R))"
proof -
  let ?s = "map_option normalizeDate sb" and ?e = "map_option normalizeDate eb"
  obtain R where R: "chunkWeeks_reduce True ?s ?e [] 0 cal = Inr R" "concat R = cal"
    "\<forall>r\<in>set R. r \<noteq> []" "length R = (length cal + 6) div 7"
    "\<forall>k<length R. length (R ! k) = min 7 (length cal - 7 * k)"
    using chunkWeeks_reduce_full [of ?s ?e cal] by blast
  have "filter (\<lambda>week. length week \<noteq> 0) R = R"
    using R(3) by (simp add: filter_id_conv)
  then have full: "chunkWeeks True cal eb sb = Inr R"
    by (simp add: chunkWeeks_def R(1))
  from chunkWeeks_reduce_filter [of 0 "[]" ?s ?e cal ao] R(1)
  have "chunkWeeks_reduce ao ?s ?e [] 0 cal = Inr (map (filter P) R)"
    by (simp add: P_def)
  then have "chunkWeeks ao cal eb sb = Inr (filter (\<lambda>r. r \<noteq> []) (map (filter P) R))"
    by (simp add: chunkWeeks_def)
  from that [OF full R(2) R(3) R(4) R(5) this] show thesis .
qed

lemma Date_getMonth_neq: "- 1 \<noteq> Date_getMonth t"
  using MonthFromTime_range [of t] unfolding Date_getMonth_def by linarith

lemma if_neq_same: "(if (p::int) \<noteq> c then c else p) = c"
  by simp

lemma chunkMonths_reduce_append:
  "chunkMonths_reduce ao s e pm acc (xs @ ys) =
     (case chunkMonths_reduce ao s e pm acc xs of
        Inl er \<Rightarrow> Inl er
      | Inr acc' \<Rightarrow>
          chunkMonths_reduce ao s e
            (if xs = [] then pm else Date_getMonth (date (last xs))) acc' ys)"
  by (induction xs arbitrary: pm acc)
     (auto simp: Let_def if_neq_same split: sum.splits)

lemma chunkMonths_reduce_filter:
  "pm < 0 \<or> A \<noteq> [] \<Longrightarrow>
   \<exists>R. chunkMonths_reduce True s e pm A cal = Inr R \<and>
       chunkMonths_reduce ao s e pm (map (filter (inBounds ao s e)) A) cal =
         Inr (map (filter (inBounds ao s e)) R)"
proof (induction cal arbitrary: A pm)
  case Nil
  show ?case by simp
next
  case (Cons d cal)
  let ?P = "inBounds ao s e"
  let ?c = "Date_getMonth (date d)"
  let ?A1 = "if pm \<noteq> ?c then A @ [[]] else A"
  let ?A2 = "butlast ?A1 @ [last ?A1 @ [d]]"
  have "0 \<le> ?c" using MonthFromTime_range [of "date d"] by (simp add: Date_getMonth_def)
  then have ne: "?A1 \<noteq> []" using Cons.prems by auto
  have t: "chunkMonths_reduce True s e pm A (d # cal) = chunkMonths_reduce True s e ?c ?A2 cal"
    using ne by (simp add: inBounds_def push_last_def Let_def if_neq_same)
  have m1: "(if pm \<noteq> ?c then map (filter ?P) A @ [[]] else map (filter ?P) A) =
            map (filter ?P) ?A1"
    by simp
  have f: "chunkMonths_reduce ao s e pm (map (filter ?P) A) (d # cal) =
           chunkMonths_reduce ao s e ?c (map (filter ?P) ?A2) cal"
  proof (cases "?P d")
    case True
    have "push_last d (map (filter ?P) ?A1) = Inr (map (filter ?P) ?A2)"
      using ne True map_filter_push [OF ne, of ?P d] by (simp add: push_last_def)
    then show ?thesis
      using True
      by (simp only: chunkMonths_reduce.simps Let_def m1 if_True sum.case if_neq_same)
  next
    case False
    have "map (filter ?P) ?A2 = map (filter ?P) ?A1"
      using False map_filter_push [OF ne, of ?P d] by simp
    then show ?thesis
      using False by (simp only: chunkMonths_reduce.simps Let_def m1 if_False if_neq_same)
  qed
  have "?c < 0 \<or> ?A2 \<noteq> []" by simp
  from Cons.IH [OF this] t f show ?case by simp
qed

lemma chunkMonths_reduce_full:
  "\<exists>R. chunkMonths_reduce True s e (- 1) [] cal = Inr R \<and> concat R = cal \<and>
       (\<forall>r\<in>set R. r \<noteq> []) \<and>
       (\<forall>d. chunkMonths_reduce True s e (- 1) [] (cal @ [d]) =
              Inr (if cal = [] \<or> Date_getMonth (date d) \<noteq> Date_getMonth (date (last cal))
                   then R @ [[d]] else butlast R @ [last R @ [d]]))"
proof (induction cal rule: rev_induct)
  case Nil
  show ?case by (simp add: inBounds_def push_last_def Let_def Date_getMonth_neq)
next
  case (snoc x cal)
  then obtain R where R: "chunkMonths_reduce True s e (- 1) [] cal = Inr R" "concat R = cal"
    "\<forall>r\<in>set R. r \<noteq> []"
    "\<forall>d. chunkMonths_reduce True s e (- 1) [] (cal @ [d]) =
              Inr (if cal = [] \<or> Date_getMonth (date d) \<noteq> Date_getMonth (date (last cal))
                   then R @ [[d]] else butlast R @ [last R @ [d]])"
    by blast
  let ?R = "if cal = [] \<or> Date_getMonth (date x) \<noteq> Date_getMonth (date (last cal))
            then R @ [[x]] else butlast R @ [last R @ [x]]"
  have run: "chunkMonths_reduce True s e (- 1) [] (cal @ [x]) = Inr ?R"
    using R(4) by blast
  have ne0: "cal \<noteq> [] \<Longrightarrow> R \<noteq> []" using R(2) by auto
  have c: "concat ?R = cal @ [x]"
    using R(2) ne0 concat_push [of R x] by auto
  have n: "\<forall>r\<in>set ?R. r \<noteq> []"
    using R(3) by (auto dest: in_set_butlastD)
  have ne: "?R \<noteq> []" by simp
  have "chunkMonths_reduce True s e (- 1) [] ((cal @ [x]) @ [d]) =
          Inr (if cal @ [x] = [] \<or>
                  Date_getMonth (date d) \<noteq> Date_getMonth (date (last (cal @ [x])))
               then ?R @ [[d]] else butlast ?R @ [last ?R @ [d]])" for d
    using ne
    by (simp only: chunkMonths_reduce_append [of True s e "- 1" "[]" "cal @ [x]" "[d]"] run)
       (simp add: inBounds_def push_last_def Let_def)
  with run c n show ?case by blast
qed

lemma chunkMonths_rows:
  fixes ao :: bool and cal :: "day list" and sb eb :: "jsdate option"
  defines "P \<equiv> inBounds ao (map_option normalizeDate sb) (map_option normalizeDate eb)"
  obtains R where "chunkMonths True cal eb sb = Inr R"
    and "concat R = cal"
    and "\<forall>r\<in>set R. r \<noteq> []"
    and "chunkMonths_reduce True (map_option normalizeDate sb) (map_option normalizeDate eb)
           (- 1) [] cal = Inr R"
    and "chunkMonths ao cal eb sb = Inr (filter (\<lambda>r. r \<noteq> []) (map (filter P) R))"
proof -
  let ?s = "map_option normalizeDate sb" and ?e = "map_option normalizeDate eb"
  obtain R where R: "chunkMonths_reduce True ?s ?e (- 1) [] cal = Inr R" "concat R = cal"
    "\<forall>r\<in>set R. r \<noteq> []"
    using chunkMonths_reduce_full [of ?s ?e cal] by blast
  have "filter (\<lambda>month. length month \<noteq> 0) R = R"
    using R(3) by (simp add: filter_id_conv)
  then have full: "chunkMonths True cal eb sb = Inr R"
    by (simp add: chunkMonths_def R(1))
  from chunkMonths_reduce_filter [of "- 1" "[]" ?s ?e cal ao] R(1)
  have "chunkMonths_reduce ao ?s ?e (- 1) [] cal = Inr (map (filter P) R)"
    by (simp add: P_def)
  then have "chunkMonths ao cal eb sb = Inr (filter (\<lambda>r. r \<noteq> []) (map (filter P) R))"
    by (simp add: chunkMonths_def)
  from that [OF full R(2) R(3) R(1) this] show thesis .
qed

lemma chunkMonths_snoc:
  assumes "chunkMonths True cal eb sb = Inr R"
  shows "chunkMonths True (cal @ [d]) eb sb =
           Inr (if cal = [] \<or> Date_getMonth (date d) \<noteq> Date_getMonth (date (last cal))
                then R @ [[d]] else butlast R @ [last R @ [d]])"
proof -
  let ?s = "map_option normalizeDate sb" and ?e = "map_option normalizeDate eb"
  obtain R' where R': "chunkMonths_reduce True ?s ?e (- 1) [] cal = Inr R'"
    "\<forall>r\<in>set R'. r \<noteq> []"
    "\<forall>d. chunkMonths_reduce True ?s ?e (- 1) [] (cal @ [d]) =
              Inr (if cal = [] \<or> Date_getMonth (date d) \<noteq> Date_getMonth (date (last cal))
                   then R' @ [[d]] else butlast R' @ [last R' @ [d]])"
    using chunkMonths_reduce_full [of ?s ?e cal] by blast
  have "filter (\<lambda>month. length month \<noteq> 0) R' = R'"
    using R'(2) by (simp add: filter_id_conv)
  with assms R'(1) have eq: "R' = R" by (simp add: chunkMonths_def)
  let ?R = "if cal = [] \<or> Date_getMonth (date d) \<noteq> Date_getMonth (date (last cal))
            then R @ [[d]] else butlast R @ [last R @ [d]]"
  note R2 = R'(2) [unfolded eq] and R3 = R'(3) [unfolded eq]
  have "\<forall>r\<in>set (R @ [[d]]). r \<noteq> []"
    using R2 by simp
  moreover have "\<forall>r\<in>set (butlast R @ [last R @ [d]]). r \<noteq> []"
    using R2 by (auto dest: in_set_butlastD)
  ultimately have "\<forall>r\<in>set ?R. r \<noteq> []"
    by presburger
  then have "filter (\<lambda>month. length month \<noteq> 0) ?R = ?R"
    by (simp only: filter_id_conv length_0_conv simp_thms)
  moreover have "chunkMonths_reduce True ?s ?e (- 1) [] (cal @ [d]) = Inr ?R"
    using R3 by blast
  ultimately show ?thesis
    by (simp only: chunkMonths_def sum.case)
qed

lemma contiguous_snoc:
  "contiguous (cal @ [x]) \<longleftrightarrow>
     contiguous cal \<and> (cal \<noteq> [] \<longrightarrow> date x = date (last cal) + msPerDay)"
  by (induction cal rule: contiguous.induct) auto

lemma chunkMonths_reduce_months:
  fixes cal :: "day list"
  assumes "contiguous cal"
    and "chunkMonths_reduce True s e (- 1) [] cal = Inr R"
  shows "(\<forall>r\<in>set R. \<forall>a\<in>set r. yearMonth (date a) = yearMonth (date (last r))) \<and>
         sorted_wrt (\<lambda>r r'. yearMonth (date (last r)) < yearMonth (date (last r'))) R"
  using assms
proof (induction cal arbitrary: R rule: rev_induct)
  case Nil
  then show ?case by auto
next
  case (snoc x cal)
  let ?ym = "\<lambda>d::day. yearMonth (date d)"
  obtain R0 where R0: "chunkMonths_reduce True s e (- 1) [] cal = Inr R0" "concat R0 = cal"
    "\<forall>r\<in>set R0. r \<noteq> []"
    "\<forall>d. chunkMonths_reduce True s e (- 1) [] (cal @ [d]) =
              Inr (if cal = [] \<or> Date_getMonth (date d) \<noteq> Date_getMonth (date (last cal))
                   then R0 @ [[d]] else butlast R0 @ [last R0 @ [d]])"
    using chunkMonths_reduce_full [of s e cal] by blast
  from snoc.prems(1) have cont: "contiguous cal"
    and nxt: "cal \<noteq> [] \<Longrightarrow> date x = date (last cal) + msPerDay"
    by (simp_all add: contiguous_snoc)
  from snoc.IH [OF cont R0(1)]
  have uni: "\<forall>r\<in>set R0. \<forall>a\<in>set r. ?ym a = ?ym (last r)"
    and srt: "sorted_wrt (\<lambda>r r'. ?ym (last r) < ?ym (last r')) R0"
    by simp_all
  have Req: "R = (if cal = [] \<or> Date_getMonth (date x) \<noteq> Date_getMonth (date (last cal))
                  then R0 @ [[x]] else butlast R0 @ [last R0 @ [x]])"
    using R0(4) snoc.prems(2) by simp
  show ?case
  proof (cases "cal = []")
    case True
    then have "R0 = []" using R0(2,3) by (cases R0) auto
    with Req True show ?thesis by simp
  next
    case False
    then have ne: "R0 \<noteq> []" using R0(2) by auto
    then have lne: "last R0 \<noteq> []" using R0(3) by simp
    have lastcal: "last cal = last (last R0)"
      using last_concat_rows [OF ne lne] R0(2) by simp
    have dx: "date x = date (last cal) + msPerDay" using nxt False by simp
    have R0split: "R0 = butlast R0 @ [last R0]" using ne by simp
    have before: "\<forall>r\<in>set (butlast R0). ?ym (last r) < ?ym (last (last R0))"
      using srt R0split sorted_wrt_append [of _ "butlast R0" "[last R0]"] by (metis list.set_intros(1))
    show ?thesis
    proof (cases "Date_getMonth (date x) = Date_getMonth (date (last cal))")
      case True
      then have ymx: "?ym x = ?ym (last cal)"
        using yearMonth_next(2) [of "date (last cal)"] dx by (simp add: Date_getMonth_def)
      have R: "R = butlast R0 @ [last R0 @ [x]]" using Req False True by simp
      have u1: "\<forall>r\<in>set (butlast R0). \<forall>a\<in>set r. ?ym a = ?ym (last r)"
        using uni by (auto dest: in_set_butlastD)
      have u2: "\<forall>a\<in>set (last R0 @ [x]). ?ym a = ?ym x"
        using uni ne ymx lastcal by auto
      have s1: "sorted_wrt (\<lambda>r r'. ?ym (last r) < ?ym (last r')) (butlast R0)"
        using srt R0split sorted_wrt_append [of _ "butlast R0" "[last R0]"] by metis
      have s2: "\<forall>r\<in>set (butlast R0). ?ym (last r) < ?ym x"
        using before ymx lastcal by simp
      show ?thesis
        unfolding R using u1 u2 s1 s2 by (auto simp: sorted_wrt_append)
    next
      case False
      then have ymx: "?ym (last cal) < ?ym x"
        using yearMonth_next(3) [of "date (last cal)"] dx by (simp add: Date_getMonth_def)
      have R: "R = R0 @ [[x]]" using Req False by simp
      have "\<forall>r\<in>set R0. ?ym (last r) \<le> ?ym (last (last R0))"
      proof
        fix r assume "r \<in> set R0"
        then have "r \<in> set (butlast R0) \<or> r = last R0"
          using R0split by (metis Un_iff insert_iff list.set(2) set_append empty_iff list.set(1))
        with before show "?ym (last r) \<le> ?ym (last (last R0))" by auto
      qed
      then have s2: "\<forall>r\<in>set R0. ?ym (last r) < ?ym x"
        using ymx lastcal by auto
      show ?thesis
        unfolding R using uni srt s2 by (auto simp: sorted_wrt_append)
    qed
  qed
qed

lemma take_min_length: "take (min a (length xs)) xs = take a xs"
  by (simp add: min_def)

lemma week_index_bounds:
  fixes n k :: nat
  shows "k < (n + 6) div 7 \<Longrightarrow> 7 * k < n"
    and "7 * k + 7 \<le> n \<Longrightarrow> k < (n + 6) div 7"
  by presburger+

lemma inBounds_normalized:
  "inBounds ao (map_option normalizeDate sb) (map_option normalizeDate eb) d =
     (ao \<or> ((case sb of None \<Rightarrow> True | Some s \<Rightarrow> normalizeDate s \<le> date d) \<and>
            (case eb of None \<Rightarrow> True | Some e \<Rightarrow> date d \<le> normalizeDate e)))"
  by (simp add: inBounds_def split: option.splits)

lemma concat_filter_nonempty: "concat (filter (\<lambda>r. r \<noteq> []) xs) = concat xs"
  by (induction xs) auto

section \<open>The colours of \<open>getColor\<close>\<close>

lemma getColor_loop_in_set:
  "colors \<noteq> [] \<Longrightarrow> color' \<in> set colors \<Longrightarrow> getColor_loop fl colors q color' i \<in> set colors"
proof (induction "length colors - i" arbitrary: i color')
  case 0
  then show ?case by (simp add: getColor_loop.simps [of fl colors q color' i])
next
  case (Suc n)
  then have i: "i < length colors" by simp
  then have "colors ! i \<in> set colors" by simp
  moreover have "n = length colors - (i + 1)" using Suc.hyps(2) by simp
  ultimately have "getColor_loop fl colors q (colors ! i) (i + 1) \<in> set colors"
    using Suc.hyps(1) Suc.prems(1) by blast
  with i Suc.prems(2) show ?case
    by (simp add: getColor_loop.simps [of fl colors q color' i])
qed

lemma boundary_mono:
  assumes "mono fl" "i \<le> j" "0 < n"
  shows "fl (real i / real n) \<le> fl (real j / real n)"
proof -
  have "real i / real n \<le> real j / real n"
    using assms(2,3) by (simp add: divide_right_mono)
  with assms(1) show ?thesis by (rule monoD)
qed

lemma getColor_loop_bucket:
  assumes m: "mono fl"
  shows "0 < i \<Longrightarrow> i \<le> length colors \<Longrightarrow>
    (\<forall>j<i. fl (real j / real (length colors)) \<le> q) \<Longrightarrow>
    \<exists>k<length colors.
       getColor_loop fl colors (Finite q) (colors ! (i - 1)) i = colors ! k \<and>
       (\<forall>j<length colors. (j \<le> k) = (fl (real j / real (length colors)) \<le> q))"
proof (induction "length colors - i" arbitrary: i)
  case 0
  then have i: "i = length colors" by simp
  have "getColor_loop fl colors (Finite q) (colors ! (i - 1)) i = colors ! (length colors - 1)"
    by (subst getColor_loop.simps) (simp add: i)
  moreover have "\<forall>j<length colors. (j \<le> length colors - 1) = (fl (real j / real (length colors)) \<le> q)"
    using "0.prems"(3) i by auto
  moreover have "length colors - 1 < length colors" using "0.prems"(1) i by simp
  ultimately show ?case by blast
next
  case (Suc n)
  then have i: "i < length colors" by simp
  let ?N = "real (length colors)"
  show ?case
  proof (cases "q < fl (real i / ?N)")
    case True
    have r: "getColor_loop fl colors (Finite q) (colors ! (i - 1)) i = colors ! (i - 1)"
      using i True by (subst getColor_loop.simps) simp
    have "(j \<le> i - 1) = (fl (real j / ?N) \<le> q)" if "j < length colors" for j
    proof (cases "j < i")
      case True
      with Suc.prems(3) show ?thesis by auto
    next
      case False
      then have "i \<le> j" by simp
      moreover have "0 < length colors" using i by (cases colors) simp_all
      ultimately have "fl (real i / ?N) \<le> fl (real j / ?N)"
        by (rule boundary_mono [OF m])
      with \<open>q < fl (real i / ?N)\<close> False Suc.prems(1) show ?thesis by auto
    qed
    moreover have "i - 1 < length colors" using i by simp
    ultimately show ?thesis using r by blast
  next
    case False
    have r: "getColor_loop fl colors (Finite q) (colors ! (i - 1)) i =
             getColor_loop fl colors (Finite q) (colors ! (i + 1 - 1)) (i + 1)"
      using i False by (subst getColor_loop.simps) simp
    have "\<forall>j<i + 1. fl (real j / ?N) \<le> q"
      using Suc.prems(3) False by (auto simp: less_Suc_eq)
    moreover have "n = length colors - (i + 1)" using Suc.hyps(2) by simp
    moreover have "0 < i + 1" "i + 1 \<le> length colors" using i by simp_all
    ultimately show ?thesis
      using Suc.hyps(1) [of "i + 1"] r by simp
  qed
qed

lemma getColor_None_iff: "getColor fl colors max' v = None \<longleftrightarrow> colors = [] \<or> v = 0"
  by (simp add: getColor_def)

lemma getColor_in_set:
  assumes "getColor fl colors max' v = Some c"
  shows "c \<in> set colors"
proof -
  from assms have ne: "colors \<noteq> []" and
    c: "c = getColor_loop fl colors (divide_js fl v max') (colors ! 0) 1"
    by (auto simp: getColor_def split: if_splits)
  from ne have "colors ! 0 \<in> set colors" by simp
  from getColor_loop_in_set [OF ne this] c show ?thesis by simp
qed

lemma mono_identity: "mono (\<lambda>x::real. x)"
  by (simp add: mono_def)

section \<open>The days of \<open>getDay\<close> and \<open>getCalendar\<close>\<close>

lemma Date_setDate_next: "Date_setDate d (Date_getDate d + 1) = d + msPerDay"
  by (simp add: Date_setDate_eq)

lemma foldl_matching:
  "foldl (\<lambda>acc obj. if P obj then fl (acc + value' obj) else acc) a data =
   foldl (\<lambda>acc x. fl (acc + x)) a (map value' (filter P data))"
  by (induction data arbitrary: a) simp_all

lemma foldl_plus_sum_list: "foldl (\<lambda>acc x. acc + x) a xs = a + sum_list xs"
  for a :: real
  by (induction xs arbitrary: a) simp_all

lemma getDay_eq:
  "getDay fl data offset startDate startDayOfMonth =
     \<lparr>date = startDate + (startDayOfMonth + offset - Date_getDate startDate) * msPerDay,
      value' = foldl (\<lambda>acc x. fl (acc + x)) 0
        (map value'
          (filter (\<lambda>obj.
              startDate + (startDayOfMonth + offset - Date_getDate startDate) * msPerDay
                \<le> normalizeDate (date obj) \<and>
              normalizeDate (date obj)
                < startDate + (startDayOfMonth + offset - Date_getDate startDate) * msPerDay
                    + msPerDay) data))\<rparr>"
  by (simp add: getDay_def Let_def Date_setDate_eq) (rule foldl_matching)

lemma MakeDate_midnight: "Day (MakeDate d 0) = d" "MakeDate d 0 = d * msPerDay"
  by (simp_all add: Day_def MakeDate_def msPerDay_def)










lemma contiguous_nth:
  "(\<forall>i<length ds. date (ds ! i) = s + int i * msPerDay) \<Longrightarrow> contiguous ds"
proof (induction ds arbitrary: s rule: contiguous.induct)
  case (1 a b ds)
  have "date a = s" using "1.prems" by auto
  moreover have "date b = s + msPerDay" using "1.prems" by (auto dest: spec [of _ 1])
  moreover have "\<forall>i<length (b # ds). date ((b # ds) ! i) = (s + msPerDay) + int i * msPerDay"
  proof (intro allI impI)
    fix i assume "i < length (b # ds)"
    then have "Suc i < length (a # b # ds)" by simp
    with "1.prems" have "date ((a # b # ds) ! Suc i) = s + int (Suc i) * msPerDay" by blast
    then show "date ((b # ds) ! i) = (s + msPerDay) + int i * msPerDay"
      by (simp add: algebra_simps)
  qed
  ultimately show ?case using "1.IH" [of "s + msPerDay"] by simp
qed simp_all

lemma getCalendar_Inr:
  assumes w: "widen view (resolveDate startDate nowS) (resolveDate endDate nowE) = (s1, e1)"
    and n: "0 \<le> totalDays s1 e1" "totalDays s1 e1 \<le> 4294967295"
  shows "getCalendar fl colors data emptyColor endDate startDate view nowS nowE =
     Inr (map (\<lambda>d. \<lparr>date = date d, value' = value' d,
                     color = or_js (getColor fl colors
                        (maxValue (aggregate fl data s1 (nat (totalDays s1 e1)))) (value' d))
                        emptyColor\<rparr>)
            (aggregate fl data s1 (nat (totalDays s1 e1))))"
  using n by (simp add: getCalendar_def w Let_def)

lemma maxValue_map:
  assumes "\<And>d. value' (g d) = value' d"
  shows "maxValue (map g ds) = maxValue ds"
proof -
  have "foldl (\<lambda>m d. if m < value' d then value' d else m) a (map g ds) =
        foldl (\<lambda>m d. if m < value' d then value' d else m) a ds" for a
    by (induction ds arbitrary: a) (simp_all add: assms)
  then show ?thesis by (simp add: maxValue_def)
qed

lemma Day_normalizeDate: "Day (normalizeDate t) = Day t"
  by (simp add: normalizeDate_def MakeDate_midnight(1))

lemma normalizeDate_idem: "normalizeDate (normalizeDate t) = normalizeDate t"
  by (simp add: normalizeDate_def MakeDate_midnight(1))




lemma Day_resolveDate:
  "Day (resolveDate d now) =
     Day (case d of Some (DateLike t) \<Rightarrow> t | Some NumberZero \<Rightarrow> now
          | Some EmptyString \<Rightarrow> now | None \<Rightarrow> now)"
  by (simp add: resolveDate_def Day_normalizeDate split: option.splits dateLike.splits)




section \<open>The months of \<open>chunkMonths\<close>\<close>

lemma chunkMonths_reduce_getMonth:
  fixes cal :: "day list"
  assumes "chunkMonths_reduce True s e (- 1) [] cal = Inr R"
  shows "(\<forall>r\<in>set R. \<forall>a\<in>set r. Date_getMonth (date a) = Date_getMonth (date (last r))) \<and>
         successively
           (\<lambda>r r'. Date_getMonth (date (hd r')) \<noteq> Date_getMonth (date (last r))) R"
  using assms
proof (induction cal arbitrary: R rule: rev_induct)
  case Nil
  then show ?case by auto
next
  case (snoc x cal)
  let ?m = "\<lambda>d::day. Date_getMonth (date d)"
  let ?P = "\<lambda>r r'. ?m (hd r') \<noteq> ?m (last r)"
  obtain R0 where R0: "chunkMonths_reduce True s e (- 1) [] cal = Inr R0" "concat R0 = cal"
    "\<forall>r\<in>set R0. r \<noteq> []"
    "\<forall>d. chunkMonths_reduce True s e (- 1) [] (cal @ [d]) =
              Inr (if cal = [] \<or> Date_getMonth (date d) \<noteq> Date_getMonth (date (last cal))
                   then R0 @ [[d]] else butlast R0 @ [last R0 @ [d]])"
    using chunkMonths_reduce_full [of s e cal] by blast
  from snoc.IH [OF R0(1)]
  have uni: "\<forall>r\<in>set R0. \<forall>a\<in>set r. ?m a = ?m (last r)"
    and suc: "successively ?P R0"
    by simp_all
  have Req: "R = (if cal = [] \<or> ?m x \<noteq> ?m (last cal)
                  then R0 @ [[x]] else butlast R0 @ [last R0 @ [x]])"
    using R0(4) snoc.prems by simp
  show ?case
  proof (cases "cal = []")
    case True
    then have "R0 = []" using R0(2,3) by (cases R0) auto
    with Req True show ?thesis by simp
  next
    case False
    then have ne: "R0 \<noteq> []" using R0(2) by auto
    then have lne: "last R0 \<noteq> []" using R0(3) by simp
    have lastcal: "last cal = last (last R0)"
      using last_concat_rows [OF ne lne] R0(2) by simp
    have R0split: "R0 = butlast R0 @ [last R0]" using ne by simp
    show ?thesis
    proof (cases "?m x = ?m (last cal)")
      case True
      have R: "R = butlast R0 @ [last R0 @ [x]]" using Req False True by simp
      have u1: "\<forall>r\<in>set (butlast R0). \<forall>a\<in>set r. ?m a = ?m (last r)"
        using uni by (auto dest: in_set_butlastD)
      have u2: "\<forall>a\<in>set (last R0 @ [x]). ?m a = ?m x"
        using uni ne True lastcal by auto
      have "successively ?P (butlast R0 @ [last R0])" using suc R0split by simp
      then have s1: "successively ?P (butlast R0)"
        and s2: "butlast R0 = [] \<or> ?P (last (butlast R0)) (last R0)"
        by (simp_all add: successively_append_iff)
      have s3: "butlast R0 = [] \<or> ?P (last (butlast R0)) (last R0 @ [x])"
        using s2 lne by simp
      have "successively ?P (butlast R0 @ [last R0 @ [x]])"
        using s1 s3 by (simp add: successively_append_iff)
      with u1 u2 show ?thesis unfolding R by auto
    next
      case True': False
      have R: "R = R0 @ [[x]]" using Req True' by simp
      have "?P (last R0) [x]" using True' lastcal by simp
      then have "successively ?P (R0 @ [[x]])"
        using suc ne by (simp add: successively_append_iff)
      with uni show ?thesis unfolding R by auto
    qed
  qed
qed

lemma chunkMonths_getMonth:
  fixes calendar :: "day list"
  assumes "chunkMonths True calendar endDate startDate = Inr R"
  shows "(\<forall>r\<in>set R. \<forall>a\<in>set r. \<forall>b\<in>set r. Date_getMonth (date a) = Date_getMonth (date b))"
    and "\<forall>i. Suc i < length R \<longrightarrow>
           Date_getMonth (date (hd (R ! Suc i))) \<noteq> Date_getMonth (date (last (R ! i)))"
proof -
  obtain R' where R': "chunkMonths True calendar endDate startDate = Inr R'"
    "chunkMonths_reduce True (map_option normalizeDate startDate)
       (map_option normalizeDate endDate) (- 1) [] calendar = Inr R'"
    by (rule chunkMonths_rows [of calendar endDate startDate True])
  with assms have eq: "R' = R" by simp
  note g = chunkMonths_reduce_getMonth [OF R'(2), unfolded eq]
  from g [THEN conjunct1]
  show "\<forall>r\<in>set R. \<forall>a\<in>set r. \<forall>b\<in>set r. Date_getMonth (date a) = Date_getMonth (date b)"
    by (metis (no_types, lifting))
  from g [THEN conjunct2]
  show "\<forall>i. Suc i < length R \<longrightarrow>
           Date_getMonth (date (hd (R ! Suc i))) \<noteq> Date_getMonth (date (last (R ! i)))"
    by (simp only: successively_conv_nth)
qed

lemma chunkMonths_filtered_getMonth:
  fixes calendar :: "day list"
  assumes "chunkMonths allowOverflow calendar endDate startDate = Inr rows"
  shows "\<forall>r\<in>set rows. \<forall>a\<in>set r. \<forall>b\<in>set r. Date_getMonth (date a) = Date_getMonth (date b)"
proof -
  let ?P = "inBounds allowOverflow (map_option normalizeDate startDate)
              (map_option normalizeDate endDate)"
  obtain R where R: "chunkMonths True calendar endDate startDate = Inr R"
    "chunkMonths allowOverflow calendar endDate startDate =
       Inr (filter (\<lambda>r. r \<noteq> []) (map (filter ?P) R))"
    by (rule chunkMonths_rows [of calendar endDate startDate allowOverflow])
  from R(2) assms have rows: "rows = filter (\<lambda>r. r \<noteq> []) (map (filter ?P) R)" by simp
  note u = chunkMonths_getMonth(1) [OF R(1)]
  show ?thesis
  proof (intro ballI)
    fix r a b assume r: "r \<in> set rows" and a: "a \<in> set r" and b: "b \<in> set r"
    from r obtain r0 where r0: "r0 \<in> set R" "r = filter ?P r0" unfolding rows by auto
    from a b r0(2) have "a \<in> set r0" "b \<in> set r0" by simp_all
    with u r0(1) show "Date_getMonth (date a) = Date_getMonth (date b)" by blast
  qed
qed

lemma chunkMonths_filtered_sameMonth:
  fixes calendar :: "day list"
  assumes "contiguous calendar"
    and "chunkMonths allowOverflow calendar endDate startDate = Inr rows"
  shows "\<forall>r\<in>set rows. \<forall>a\<in>set r. \<forall>b\<in>set r. sameMonth a b"
    and "\<forall>i j. i < j \<and> j < length rows \<longrightarrow>
           (\<forall>a\<in>set (rows ! i). \<forall>b\<in>set (rows ! j). \<not> sameMonth a b)"
proof -
  let ?ym = "\<lambda>d::day. yearMonth (date d)"
  let ?P = "inBounds allowOverflow (map_option normalizeDate startDate)
              (map_option normalizeDate endDate)"
  let ?Q = "\<lambda>r r'. \<forall>a\<in>set r. \<forall>b\<in>set r'. ?ym a < ?ym b"
  obtain R where R: "chunkMonths True calendar endDate startDate = Inr R"
    "chunkMonths_reduce True (map_option normalizeDate startDate)
       (map_option normalizeDate endDate) (- 1) [] calendar = Inr R"
    "chunkMonths allowOverflow calendar endDate startDate =
       Inr (filter (\<lambda>r. r \<noteq> []) (map (filter ?P) R))"
    by (rule chunkMonths_rows [of calendar endDate startDate allowOverflow])
  from R(3) assms(2) have rows: "rows = filter (\<lambda>r. r \<noteq> []) (map (filter ?P) R)" by simp
  note g = chunkMonths_reduce_months [OF assms(1) R(2)]
  note uni = g [THEN conjunct1] and srt = g [THEN conjunct2]
  have q: "sorted_wrt ?Q R"
  proof (rule sorted_wrt_mono_rel [OF _ srt])
    fix x y assume x: "x \<in> set R" and y: "y \<in> set R"
      and l: "?ym (last x) < ?ym (last y)"
    show "?Q x y"
    proof (intro ballI)
      fix a b assume "a \<in> set x" "b \<in> set y"
      with uni x y have "?ym a = ?ym (last x)" "?ym b = ?ym (last y)" by blast+
      with l show "?ym a < ?ym b" by simp
    qed
  qed
  have "sorted_wrt (\<lambda>x y. ?Q (filter ?P x) (filter ?P y)) R"
    by (rule sorted_wrt_mono_rel [OF _ q]) simp
  then have "sorted_wrt ?Q (map (filter ?P) R)" by (simp only: sorted_wrt_map)
  then have s: "sorted_wrt ?Q rows" unfolding rows by (rule sorted_wrt_filter)
  show "\<forall>r\<in>set rows. \<forall>a\<in>set r. \<forall>b\<in>set r. sameMonth a b"
  proof (intro ballI)
    fix r a b assume r: "r \<in> set rows" and a: "a \<in> set r" and b: "b \<in> set r"
    from r obtain r0 where r0: "r0 \<in> set R" "r = filter ?P r0" unfolding rows by auto
    from a b r0(2) have "a \<in> set r0" "b \<in> set r0" by simp_all
    with uni r0(1) have "?ym a = ?ym (last r0)" "?ym b = ?ym (last r0)" by blast+
    then show "sameMonth a b" by (simp add: sameMonth_yearMonth)
  qed
  show "\<forall>i j. i < j \<and> j < length rows \<longrightarrow>
          (\<forall>a\<in>set (rows ! i). \<forall>b\<in>set (rows ! j). \<not> sameMonth a b)"
  proof (intro allI impI ballI)
    fix i j a b
    assume ij: "i < j \<and> j < length rows" and a: "a \<in> set (rows ! i)"
      and b: "b \<in> set (rows ! j)"
    from ij have lt: "i < j" and j: "j < length rows" by simp_all
    from s have "\<forall>i j. i < j \<longrightarrow> j < length rows \<longrightarrow> ?Q (rows ! i) (rows ! j)"
      by (simp only: sorted_wrt_iff_nth_less)
    with lt j have "?Q (rows ! i) (rows ! j)" by blast
    with a b have "?ym a < ?ym b" by blast
    then show "\<not> sameMonth a b" by (simp add: sameMonth_yearMonth)
  qed
qed


section \<open>The example of the specification\<close>

lemma Date_getDate_example: "Date_getDate 1578787200000 = 12"
proof -
  have d: "Day 1578787200000 = 18273" by (simp add: Day_def msPerDay_def)
  have "DayFromYear 2020 \<le> Day 1578787200000" "Day 1578787200000 < DayFromYear (2020 + 1)"
    by (simp_all add: d DayFromYear_def)
  then have y: "YearFromTime 1578787200000 = 2020" by (rule YearFromTime_unique)
  show ?thesis
    by (simp add: Date_getDate_def DateFromTime_def MonthFromTime_def DayWithinYear_def
        InLeapYear_def y d DayFromYear_def DaysInYear_def MonthOfDay_def MonthStartDay_def)
qed

lemma aggregate_example:
  "aggregate id exampleData 1578787200000 7 =
     [\<lparr>date = 1578787200000, value' = 0\<rparr>, \<lparr>date = 1578873600000, value' = 0\<rparr>,
      \<lparr>date = 1578960000000, value' = 0\<rparr>, \<lparr>date = 1579046400000, value' = 3\<rparr>,
      \<lparr>date = 1579132800000, value' = 5\<rparr>, \<lparr>date = 1579219200000, value' = 0\<rparr>,
      \<lparr>date = 1579305600000, value' = 0\<rparr>]"
proof -
  have u: "[0..<7] = [0, 1, 2, 3, 4, 5, 6]" by (simp add: upt_rec)
  show ?thesis
    by (simp add: aggregate_def u getDay_eq exampleData_def normalizeDate_def MakeDate_def
        Day_def msPerDay_def)
qed

lemma getCalendar_example:
  assumes "Day (resolveDate startDate nowS) = 18276" "Day (resolveDate endDate nowE) = 18277"
  shows "getCalendar id colors exampleData emptyColor endDate startDate ''weekly'' nowS nowE =
    Inr [\<lparr>date = 1578787200000, value' = 0, color = emptyColor\<rparr>,
         \<lparr>date = 1578873600000, value' = 0, color = emptyColor\<rparr>,
         \<lparr>date = 1578960000000, value' = 0, color = emptyColor\<rparr>,
         \<lparr>date = 1579046400000, value' = 3, color = or_js (getColor id colors 5 3) emptyColor\<rparr>,
         \<lparr>date = 1579132800000, value' = 5, color = or_js (getColor id colors 5 5) emptyColor\<rparr>,
         \<lparr>date = 1579219200000, value' = 0, color = emptyColor\<rparr>,
         \<lparr>date = 1579305600000, value' = 0, color = emptyColor\<rparr>]"
proof -
  have w: "widen ''weekly'' (resolveDate startDate nowS) (resolveDate endDate nowE) =
           (1578787200000, 1579305600000)"
    by (simp add: widen_def getWeekStart_def getWeekEnd_def WeekDay_def assms MakeDate_def
        msPerDay_def)
  have n: "totalDays 1578787200000 1579305600000 = 7" by (simp add: totalDays_def)
  have m: "maxValue (aggregate id exampleData 1578787200000 7) = 5"
    by (simp add: aggregate_example maxValue_def)
  note m' = m [unfolded aggregate_example]
  have z: "getColor id colors 5 0 = None" by (simp add: getColor_def)
  have "getCalendar id colors exampleData emptyColor endDate startDate ''weekly'' nowS nowE =
     Inr (map (\<lambda>d. \<lparr>date = date d, value' = value' d,
                     color = or_js (getColor id colors
                        (maxValue (aggregate id exampleData 1578787200000
                           (nat (totalDays 1578787200000 1579305600000)))) (value' d))
                        emptyColor\<rparr>)
            (aggregate id exampleData 1578787200000
               (nat (totalDays 1578787200000 1579305600000))))"
    by (rule getCalendar_Inr [OF w]) (simp_all add: n)
  then show ?thesis
    by (simp add: n m' aggregate_example z or_js_def)
qed

lemma Day_example:
  "Day (resolveDate (Some (DateLike 1579046400000)) nowS) = 18276"
  "Day (resolveDate (Some (DateLike 1579132800000)) nowE) = 18277"
  "Day (resolveDate None 1579090000000) = 18276"
  by (simp_all add: resolveDate_def normalizeDate_def MakeDate_def Day_def msPerDay_def)


section \<open>The claims\<close>

text \<open>
  C10. With \<open>allowOverflow\<close> true, the rows that \<open>chunkWeeks\<close> returns, and likewise those
  that \<open>chunkMonths\<close> returns, concatenated in order, are exactly the input calendar: both
  calls return, and nothing is dropped, duplicated or reordered.
\<close>

theorem chunk_partition:
  fixes calendar :: "day list"
  shows "(\<exists>R. chunkWeeks True calendar endDate startDate = Inr R \<and> concat R = calendar) \<and>
   (\<exists>R. chunkMonths True calendar endDate startDate = Inr R \<and> concat R = calendar)"
proof
  obtain R where "chunkWeeks True calendar endDate startDate = Inr R" "concat R = calendar"
    by (rule chunkWeeks_rows [of calendar endDate startDate True])
  then show "\<exists>R. chunkWeeks True calendar endDate startDate = Inr R \<and> concat R = calendar"
    by (intro exI [of _ R] conjI)
  obtain R where "chunkMonths True calendar endDate startDate = Inr R" "concat R = calendar"
    by (rule chunkMonths_rows [of calendar endDate startDate True])
  then show "\<exists>R. chunkMonths True calendar endDate startDate = Inr R \<and> concat R = calendar"
    by (intro exI [of _ R] conjI)
qed

theorem chunk_partition_witness:
  "chunkWeeks True (exampleCalendar 0 8) None None =
     Inr [[exampleDay 0, exampleDay 1, exampleDay 2, exampleDay 3, exampleDay 4, exampleDay 5,
           exampleDay 6], [exampleDay 7]] \<and>
   (\<exists>R. chunkMonths True (exampleCalendar 0 8) None None = Inr R \<and>
        concat R = exampleCalendar 0 8)"
proof
  show "chunkWeeks True (exampleCalendar 0 8) None None =
     Inr [[exampleDay 0, exampleDay 1, exampleDay 2, exampleDay 3, exampleDay 4, exampleDay 5,
           exampleDay 6], [exampleDay 7]]"
    by code_simp
  show "\<exists>R. chunkMonths True (exampleCalendar 0 8) None None = Inr R \<and>
        concat R = exampleCalendar 0 8"
    by (rule chunk_partition [where calendar = "exampleCalendar 0 8" and endDate = None
          and startDate = None, THEN conjunct2])
qed

text \<open>
  C7 (as amended). With \<open>allowOverflow\<close> true, \<open>chunkWeeks\<close> returns one row for every seven
  entries of the calendar, counted by index whatever their dates: row \<open>k\<close> holds the entries
  \<open>7k\<close> to \<open>7k + 6\<close>. A row whose seven indices are all within the calendar has exactly
  seven entries, and every row has when the length of the calendar is a multiple of seven;
  otherwise the last row is shorter: of eight days the second row holds one.
\<close>

theorem chunkWeeks_rows_of_seven:
  fixes calendar :: "day list"
  shows "\<exists>R. chunkWeeks True calendar endDate startDate = Inr R \<and>
       length R = (length calendar + 6) div 7 \<and>
       (\<forall>k<length R. R ! k = take 7 (drop (7 * k) calendar)) \<and>
       (\<forall>k. 7 * k + 7 \<le> length calendar \<longrightarrow> k < length R \<and> length (R ! k) = 7) \<and>
       (length calendar mod 7 = 0 \<longrightarrow> (\<forall>r\<in>set R. length r = 7))"
proof -
  let ?n = "length calendar"
  obtain R where R: "chunkWeeks True calendar endDate startDate = Inr R" "concat R = calendar"
    "\<forall>r\<in>set R. r \<noteq> []"
    "length R = (?n + 6) div 7" "\<forall>k<length R. length (R ! k) = min 7 (?n - 7 * k)"
    by (rule chunkWeeks_rows [of calendar endDate startDate True])
  have rows: "R ! k = take 7 (drop (7 * k) calendar)" if k: "k < length R" for k
  proof -
    have "length (R ! j) = 7" if "j < k" for j
    proof -
      have "7 * k < ?n" using k R(4) week_index_bounds(1) [of k ?n] by simp
      with that have "7 * j + 7 \<le> ?n" by simp
      moreover have "j < length R" using that k by simp
      ultimately show ?thesis using R(5) by (simp add: min_def)
    qed
    then have "R ! k = take (length (R ! k)) (drop (7 * k) (concat R))"
      using nth_concat_block [OF k, of 7] by simp
    also have "\<dots> = take (min 7 (length (drop (7 * k) calendar))) (drop (7 * k) calendar)"
      using R(2) R(5) k by simp
    finally show ?thesis by (simp only: take_min_length)
  qed
  have full: "k < length R \<and> length (R ! k) = 7" if "7 * k + 7 \<le> ?n" for k
  proof -
    have "k < length R" using that R(4) week_index_bounds(2) [of k ?n] by simp
    with that R(5) show ?thesis by (simp add: min_def)
  qed
  have all: "\<forall>r\<in>set R. length r = 7" if m: "?n mod 7 = 0"
  proof
    fix r assume "r \<in> set R"
    then obtain k where k: "k < length R" "r = R ! k" by (auto simp: in_set_conv_nth)
    then have "7 * k + 7 \<le> ?n" using week_arith_new(2) [OF m, of k] R(4) by simp
    from full [OF this] k(2) show "length r = 7" by simp
  qed
  show ?thesis
  proof (rule exI [of _ R], intro conjI)
    show "chunkWeeks True calendar endDate startDate = Inr R" by (rule R(1))
    show "length R = (?n + 6) div 7" by (rule R(4))
    show "\<forall>k<length R. R ! k = take 7 (drop (7 * k) calendar)"
      by (intro allI impI) (rule rows)
    show "\<forall>k. 7 * k + 7 \<le> ?n \<longrightarrow> k < length R \<and> length (R ! k) = 7"
      by (intro allI impI) (rule full)
    show "?n mod 7 = 0 \<longrightarrow> (\<forall>r\<in>set R. length r = 7)"
      by (intro impI) (rule all)
  qed
qed

theorem chunkWeeks_rows_of_seven_witness:
  "length (exampleCalendar 0 14) mod 7 = 0 \<and>
   (\<exists>R. chunkWeeks True (exampleCalendar 0 14) None None = Inr R \<and> length R = 2 \<and>
        R ! 1 = take 7 (drop 7 (exampleCalendar 0 14)) \<and> (\<forall>r\<in>set R. length r = 7))"
proof -
  have len: "length (exampleCalendar 0 14) = 14" by (simp add: exampleCalendar_def)
  have m: "length (exampleCalendar 0 14) mod 7 = 0" by (simp add: len)
  obtain R where R: "chunkWeeks True (exampleCalendar 0 14) None None = Inr R \<and>
       length R = (length (exampleCalendar 0 14) + 6) div 7 \<and>
       (\<forall>k<length R. R ! k = take 7 (drop (7 * k) (exampleCalendar 0 14))) \<and>
       (\<forall>k. 7 * k + 7 \<le> length (exampleCalendar 0 14) \<longrightarrow> k < length R \<and> length (R ! k) = 7) \<and>
       (length (exampleCalendar 0 14) mod 7 = 0 \<longrightarrow> (\<forall>r\<in>set R. length r = 7))"
    using chunkWeeks_rows_of_seven [where calendar = "exampleCalendar 0 14" and endDate = None
         and startDate = None] by (rule exE)
  note R1 = R [THEN conjunct1]
    and R2 = R [THEN conjunct2, THEN conjunct1]
    and R3 = R [THEN conjunct2, THEN conjunct2, THEN conjunct1]
    and R5 = R [THEN conjunct2, THEN conjunct2, THEN conjunct2, THEN conjunct2]
  have l2: "length R = 2" unfolding R2 len by simp
  have "1 < length R" unfolding l2 by simp
  from R3 [rule_format, OF this]
  have r1: "R ! 1 = take 7 (drop 7 (exampleCalendar 0 14))" by simp
  have all7: "\<forall>r\<in>set R. length r = 7" using R5 m by (rule mp)
  show ?thesis
    by (intro conjI exI [of _ R]) (rule m R1 l2 r1 all7)+
qed

theorem chunkWeeks_short_row:
  "chunkWeeks True (exampleCalendar 0 8) None None =
     Inr [[exampleDay 0, exampleDay 1, exampleDay 2, exampleDay 3, exampleDay 4, exampleDay 5,
           exampleDay 6], [exampleDay 7]]"
  by code_simp

text \<open>
  C2. For every calendar, flag and pair of optional bounds, \<open>chunkWeeks\<close> and
  \<open>chunkMonths\<close> return, and no row they return is empty. The rows \<open>R\<close> of the unfiltered
  grouping (that of \<open>allowOverflow = true\<close>) are the calendar cut into consecutive pieces;
  the rows returned are these, each filtered by the bounds, which keeps the order of the
  entries that stay, without the rows that the filter leaves empty. Together they are the
  entries of the calendar that are within the bounds, in the order of the calendar.
\<close>

theorem chunk_rows_not_empty:
  fixes allowOverflow :: bool and calendar :: "day list"
    and endDate startDate :: "jsdate option"
  defines "included \<equiv> inBounds allowOverflow (map_option normalizeDate startDate)
                         (map_option normalizeDate endDate)"
  shows "(\<exists>R rows. chunkWeeks True calendar endDate startDate = Inr R \<and>
            concat R = calendar \<and>
            chunkWeeks allowOverflow calendar endDate startDate = Inr rows \<and>
            (\<forall>r\<in>set rows. 0 < length r) \<and>
            rows = filter (\<lambda>r. r \<noteq> []) (map (filter included) R) \<and>
            concat rows = filter included calendar) \<and>
         (\<exists>R rows. chunkMonths True calendar endDate startDate = Inr R \<and>
            concat R = calendar \<and>
            chunkMonths allowOverflow calendar endDate startDate = Inr rows \<and>
            (\<forall>r\<in>set rows. 0 < length r) \<and>
            rows = filter (\<lambda>r. r \<noteq> []) (map (filter included) R) \<and>
            concat rows = filter included calendar)"
proof
  have ne: "\<forall>r\<in>set (filter (\<lambda>r. r \<noteq> []) X). 0 < length r" for X :: "day list list"
    by simp
  have cc: "concat (filter (\<lambda>r. r \<noteq> []) (map (filter included) X)) = filter included (concat X)"
    for X :: "day list list"
    by (simp add: concat_filter_nonempty filter_concat)
  obtain R where R: "chunkWeeks True calendar endDate startDate = Inr R" "concat R = calendar"
    "chunkWeeks allowOverflow calendar endDate startDate =
       Inr (filter (\<lambda>r. r \<noteq> []) (map (filter included) R))"
    unfolding included_def
    by (rule chunkWeeks_rows [of calendar endDate startDate allowOverflow])
  have cR: "concat (filter (\<lambda>r. r \<noteq> []) (map (filter included) R)) = filter included calendar"
    using cc [of R] R(2) by simp
  show "\<exists>R rows. chunkWeeks True calendar endDate startDate = Inr R \<and>
            concat R = calendar \<and>
            chunkWeeks allowOverflow calendar endDate startDate = Inr rows \<and>
            (\<forall>r\<in>set rows. 0 < length r) \<and>
            rows = filter (\<lambda>r. r \<noteq> []) (map (filter included) R) \<and>
            concat rows = filter included calendar"
    by (intro exI [of _ R] exI [of _ "filter (\<lambda>r. r \<noteq> []) (map (filter included) R)"] conjI)
       (rule R ne cR refl)+
  obtain M where M: "chunkMonths True calendar endDate startDate = Inr M" "concat M = calendar"
    "chunkMonths allowOverflow calendar endDate startDate =
       Inr (filter (\<lambda>r. r \<noteq> []) (map (filter included) M))"
    unfolding included_def
    by (rule chunkMonths_rows [of calendar endDate startDate allowOverflow])
  have cM: "concat (filter (\<lambda>r. r \<noteq> []) (map (filter included) M)) = filter included calendar"
    using cc [of M] M(2) by simp
  show "\<exists>R rows. chunkMonths True calendar endDate startDate = Inr R \<and>
            concat R = calendar \<and>
            chunkMonths allowOverflow calendar endDate startDate = Inr rows \<and>
            (\<forall>r\<in>set rows. 0 < length r) \<and>
            rows = filter (\<lambda>r. r \<noteq> []) (map (filter included) R) \<and>
            concat rows = filter included calendar"
    by (intro exI [of _ M] exI [of _ "filter (\<lambda>r. r \<noteq> []) (map (filter included) M)"] conjI)
       (rule M ne cM refl)+
qed

theorem chunk_rows_not_empty_witness:
  "chunkWeeks False (exampleCalendar 0 8) None (Some 644400000) = Inr [[exampleDay 7]] \<and>
   chunkMonths False (exampleCalendar 29 4) (Some 2678400000) None =
     Inr [[exampleDay 29, exampleDay 30], [exampleDay 31]] \<and>
   (\<exists>R rows. chunkWeeks True (exampleCalendar 0 8) None (Some 644400000) = Inr R \<and>
      concat R = exampleCalendar 0 8 \<and>
      chunkWeeks False (exampleCalendar 0 8) None (Some 644400000) = Inr rows \<and>
      (\<forall>r\<in>set rows. 0 < length r) \<and>
      rows = filter (\<lambda>r. r \<noteq> [])
               (map (filter (inBounds False (map_option normalizeDate (Some 644400000))
                               (map_option normalizeDate None))) R) \<and>
      concat rows = filter (inBounds False (map_option normalizeDate (Some 644400000))
                              (map_option normalizeDate None)) (exampleCalendar 0 8))"
proof (intro conjI)
  show "chunkWeeks False (exampleCalendar 0 8) None (Some 644400000) = Inr [[exampleDay 7]]"
    by code_simp
  show "chunkMonths False (exampleCalendar 29 4) (Some 2678400000) None =
     Inr [[exampleDay 29, exampleDay 30], [exampleDay 31]]"
    by code_simp
  show "\<exists>R rows. chunkWeeks True (exampleCalendar 0 8) None (Some 644400000) = Inr R \<and>
      concat R = exampleCalendar 0 8 \<and>
      chunkWeeks False (exampleCalendar 0 8) None (Some 644400000) = Inr rows \<and>
      (\<forall>r\<in>set rows. 0 < length r) \<and>
      rows = filter (\<lambda>r. r \<noteq> [])
               (map (filter (inBounds False (map_option normalizeDate (Some 644400000))
                               (map_option normalizeDate None))) R) \<and>
      concat rows = filter (inBounds False (map_option normalizeDate (Some 644400000))
                              (map_option normalizeDate None)) (exampleCalendar 0 8)"
    by (rule chunk_rows_not_empty [where calendar = "exampleCalendar 0 8" and endDate = None
            and startDate = "Some 644400000" and allowOverflow = False, THEN conjunct1])
qed

text \<open>
  C6. In both \<open>chunkWeeks\<close> and \<open>chunkMonths\<close> an entry stays in its row if and only if
  \<open>allowOverflow\<close> is true or its date is within the bounds, each bound normalized by
  \<open>normalizeDate\<close> on its own and an absent bound leaving that side open: the rows are the
  unfiltered rows filtered by that test, and together they hold exactly the entries of the
  calendar that pass it.
\<close>

theorem chunk_inclusion:
  fixes allowOverflow :: bool and calendar :: "day list"
    and endDate startDate :: "jsdate option"
  defines "included \<equiv> (\<lambda>d. allowOverflow \<or>
     ((case startDate of None \<Rightarrow> True | Some s \<Rightarrow> normalizeDate s \<le> date d) \<and>
      (case endDate of None \<Rightarrow> True | Some e \<Rightarrow> date d \<le> normalizeDate e)))"
  shows "(\<exists>R rows. chunkWeeks True calendar endDate startDate = Inr R \<and>
            chunkWeeks allowOverflow calendar endDate startDate = Inr rows \<and>
            rows = filter (\<lambda>r. r \<noteq> []) (map (filter included) R) \<and>
            concat rows = filter included calendar) \<and>
         (\<exists>R rows. chunkMonths True calendar endDate startDate = Inr R \<and>
            chunkMonths allowOverflow calendar endDate startDate = Inr rows \<and>
            rows = filter (\<lambda>r. r \<noteq> []) (map (filter included) R) \<and>
            concat rows = filter included calendar)"
proof
  have inc: "inBounds allowOverflow (map_option normalizeDate startDate)
               (map_option normalizeDate endDate) = included"
    by (rule ext) (simp add: inBounds_normalized included_def)
  have cc: "concat (filter (\<lambda>r. r \<noteq> []) (map (filter included) R)) = filter included (concat R)"
    for R :: "day list list"
    by (simp add: concat_filter_nonempty filter_concat)
  obtain R where R: "chunkWeeks True calendar endDate startDate = Inr R" "concat R = calendar"
    "chunkWeeks allowOverflow calendar endDate startDate =
       Inr (filter (\<lambda>r. r \<noteq> []) (map (filter included) R))"
    unfolding inc [symmetric]
    by (rule chunkWeeks_rows [of calendar endDate startDate allowOverflow])
  have cR: "concat (filter (\<lambda>r. r \<noteq> []) (map (filter included) R)) = filter included calendar"
    using cc [of R] R(2) by simp
  show "\<exists>R rows. chunkWeeks True calendar endDate startDate = Inr R \<and>
            chunkWeeks allowOverflow calendar endDate startDate = Inr rows \<and>
            rows = filter (\<lambda>r. r \<noteq> []) (map (filter included) R) \<and>
            concat rows = filter included calendar"
    by (intro exI [of _ R] exI [of _ "filter (\<lambda>r. r \<noteq> []) (map (filter included) R)"] conjI)
       (rule R(1) R(3) cR refl)+
  obtain M where M: "chunkMonths True calendar endDate startDate = Inr M" "concat M = calendar"
    "chunkMonths allowOverflow calendar endDate startDate =
       Inr (filter (\<lambda>r. r \<noteq> []) (map (filter included) M))"
    unfolding inc [symmetric]
    by (rule chunkMonths_rows [of calendar endDate startDate allowOverflow])
  have cM: "concat (filter (\<lambda>r. r \<noteq> []) (map (filter included) M)) = filter included calendar"
    using cc [of M] M(2) by simp
  show "\<exists>R rows. chunkMonths True calendar endDate startDate = Inr R \<and>
            chunkMonths allowOverflow calendar endDate startDate = Inr rows \<and>
            rows = filter (\<lambda>r. r \<noteq> []) (map (filter included) R) \<and>
            concat rows = filter included calendar"
    by (intro exI [of _ M] exI [of _ "filter (\<lambda>r. r \<noteq> []) (map (filter included) M)"] conjI)
       (rule M(1) M(3) cM refl)+
qed

theorem chunk_inclusion_witness:
  "chunkWeeks False (exampleCalendar 0 8) (Some 86400001) (Some 86399999) =
     Inr [[exampleDay 0, exampleDay 1]] \<and>
   chunkMonths False (exampleCalendar 29 4) None (Some 2592000001) =
     Inr [[exampleDay 30], [exampleDay 31, exampleDay 32]] \<and>
   (\<exists>R rows. chunkWeeks True (exampleCalendar 0 8) (Some 86400001) (Some 86399999) = Inr R \<and>
      chunkWeeks False (exampleCalendar 0 8) (Some 86400001) (Some 86399999) = Inr rows \<and>
      rows = filter (\<lambda>r. r \<noteq> []) (map (filter (\<lambda>d. False \<or>
        ((case Some 86399999 of None \<Rightarrow> True | Some s \<Rightarrow> normalizeDate s \<le> date d) \<and>
         (case Some 86400001 of None \<Rightarrow> True | Some e \<Rightarrow> date d \<le> normalizeDate e)))) R) \<and>
      concat rows = filter (\<lambda>d. False \<or>
        ((case Some 86399999 of None \<Rightarrow> True | Some s \<Rightarrow> normalizeDate s \<le> date d) \<and>
         (case Some 86400001 of None \<Rightarrow> True | Some e \<Rightarrow> date d \<le> normalizeDate e)))
        (exampleCalendar 0 8))"
proof (intro conjI)
  show "chunkWeeks False (exampleCalendar 0 8) (Some 86400001) (Some 86399999) =
     Inr [[exampleDay 0, exampleDay 1]]"
    by code_simp
  show "chunkMonths False (exampleCalendar 29 4) None (Some 2592000001) =
     Inr [[exampleDay 30], [exampleDay 31, exampleDay 32]]"
    by code_simp
  show "\<exists>R rows. chunkWeeks True (exampleCalendar 0 8) (Some 86400001) (Some 86399999) = Inr R \<and>
      chunkWeeks False (exampleCalendar 0 8) (Some 86400001) (Some 86399999) = Inr rows \<and>
      rows = filter (\<lambda>r. r \<noteq> []) (map (filter (\<lambda>d. False \<or>
        ((case Some 86399999 of None \<Rightarrow> True | Some s \<Rightarrow> normalizeDate s \<le> date d) \<and>
         (case Some 86400001 of None \<Rightarrow> True | Some e \<Rightarrow> date d \<le> normalizeDate e)))) R) \<and>
      concat rows = filter (\<lambda>d. False \<or>
        ((case Some 86399999 of None \<Rightarrow> True | Some s \<Rightarrow> normalizeDate s \<le> date d) \<and>
         (case Some 86400001 of None \<Rightarrow> True | Some e \<Rightarrow> date d \<le> normalizeDate e)))
        (exampleCalendar 0 8)"
    by (rule chunk_inclusion [where calendar = "exampleCalendar 0 8"
          and endDate = "Some 86400001" and startDate = "Some 86399999"
          and allowOverflow = False, THEN conjunct1])
qed



text \<open>
  C3. \<open>getDay\<close> returns the date \<open>target\<close>, the anchor date set to the day
  \<open>startDayOfMonth + offset\<close> of its month, and as value the sum, from 0 and in the order
  of the data, of the values of the observations whose normalized date is in
  \<open>[target, target + 1 day)\<close>. The value is 0 when no observation matches. Every addition
  is rounded; where none rounds, the value is the exact sum: observations of 1 and 2 on one
  day give 3.
\<close>

theorem getDay_sum:
  fixes data :: "datum list" and startDate :: jsdate and startDayOfMonth offset :: int
  defines "target \<equiv> Date_setDate startDate (startDayOfMonth + offset)"
  defines "matching \<equiv>
     filter (\<lambda>obj. target \<le> normalizeDate (date obj) \<and>
                   normalizeDate (date obj) < target + msPerDay) data"
  shows "getDay fl data offset startDate startDayOfMonth =
           \<lparr>date = target,
            value' = foldl (\<lambda>acc x. fl (acc + x)) 0 (map value' matching)\<rparr> \<and>
         target = startDate + (startDayOfMonth + offset - Date_getDate startDate) * msPerDay \<and>
         (matching = [] \<longrightarrow> value' (getDay fl data offset startDate startDayOfMonth) = 0) \<and>
         ((\<forall>x. fl x = x) \<longrightarrow>
            value' (getDay fl data offset startDate startDayOfMonth) =
              sum_list (map value' matching))"
proof -
  have t: "target = startDate + (startDayOfMonth + offset - Date_getDate startDate) * msPerDay"
    by (simp add: target_def Date_setDate_eq)
  have g: "getDay fl data offset startDate startDayOfMonth =
           \<lparr>date = target,
            value' = foldl (\<lambda>acc x. fl (acc + x)) 0 (map value' matching)\<rparr>"
    unfolding matching_def t by (rule getDay_eq)
  have z: "matching = [] \<longrightarrow> value' (getDay fl data offset startDate startDayOfMonth) = 0"
    by (simp add: g)
  have s: "(\<forall>x. fl x = x) \<longrightarrow>
            value' (getDay fl data offset startDate startDayOfMonth) =
              sum_list (map value' matching)"
  proof
    assume "\<forall>x. fl x = x"
    then have "(\<lambda>acc x. fl (acc + x)) = (\<lambda>acc x. acc + x)" by simp
    then show "value' (getDay fl data offset startDate startDayOfMonth) =
              sum_list (map value' matching)"
      by (simp add: g foldl_plus_sum_list)
  qed
  from g t z s show ?thesis by (intro conjI)
qed

theorem getDay_sum_witness:
  "getDay id exampleData 3 1578787200000 12 = \<lparr>date = 1579046400000, value' = 3\<rparr> \<and>
   getDay id exampleData 4 1578787200000 12 = \<lparr>date = 1579132800000, value' = 5\<rparr> \<and>
   getDay id exampleData 0 1578787200000 12 = \<lparr>date = 1578787200000, value' = 0\<rparr>"
proof -
  note t = getDay_sum [where fl = id and data = exampleData and startDate = 1578787200000
      and startDayOfMonth = 12, THEN conjunct1]
  note ev = Date_setDate_eq Date_getDate_example exampleData_def normalizeDate_def
    MakeDate_def Day_def msPerDay_def
  have a: "getDay id exampleData 3 1578787200000 12 = \<lparr>date = 1579046400000, value' = 3\<rparr>"
    using t [of 3] by (simp add: ev)
  have b: "getDay id exampleData 4 1578787200000 12 = \<lparr>date = 1579132800000, value' = 5\<rparr>"
    using t [of 4] by (simp add: ev)
  have c: "getDay id exampleData 0 1578787200000 12 = \<lparr>date = 1578787200000, value' = 0\<rparr>"
    using t [of 0] by (simp add: ev)
  from a b c show ?thesis by (intro conjI)
qed

text \<open>
  C4. For a scale of \<open>N > 0\<close> colours, \<open>max > 0\<close> and \<open>value > 0\<close>, \<open>getColor\<close> returns
  the entry at the highest index \<open>k\<close> whose boundary \<open>k / N\<close> is at most \<open>value / max\<close>:
  the boundaries of the indices up to \<open>k\<close> are at most the quotient, those of the indices
  after \<open>k\<close> are greater, the quotients being the rounded ones the code compares (the
  rounding is monotone). A scale of one colour gives that colour.
\<close>

theorem getColor_bucket:
  assumes "mono fl" and "colors \<noteq> []" and "0 < max'" and "0 < v"
  shows "(\<exists>k<length colors. getColor fl colors max' v = Some (colors ! k) \<and>
            fl (real k / real (length colors)) \<le> fl (v / max') \<and>
            (\<forall>j<length colors. fl (real j / real (length colors)) \<le> fl (v / max') \<longrightarrow> j \<le> k) \<and>
            (\<forall>i<length colors. (i \<le> k) = (fl (real i / real (length colors)) \<le> fl (v / max')))) \<and>
         (length colors = 1 \<longrightarrow> getColor fl colors max' v = Some (colors ! 0))"
proof -
  let ?N = "real (length colors)" and ?q = "fl (v / max')"
  have len: "0 < length colors" using assms(2) by simp
  have "0 \<le> v / max'" using assms(3,4) by simp
  then have "fl (0 / ?N) \<le> ?q" using assms(1) by (simp add: monoD)
  then have "\<forall>j<1. fl (real j / ?N) \<le> ?q" by simp
  from getColor_loop_bucket [OF assms(1) _ _ this] len
  obtain k where k: "k < length colors"
    "getColor_loop fl colors (Finite ?q) (colors ! (1 - 1)) 1 = colors ! k"
    "\<forall>j<length colors. (j \<le> k) = (fl (real j / ?N) \<le> ?q)"
    by (metis One_nat_def Suc_leI zero_less_one)
  have g: "getColor fl colors max' v = Some (colors ! k)"
    using assms(2,3,4) k(2) by (simp add: getColor_def divide_js_def)
  have a: "fl (real k / ?N) \<le> ?q" using k(1,3) by blast
  have b: "\<forall>j<length colors. fl (real j / ?N) \<le> ?q \<longrightarrow> j \<le> k" using k(3) by blast
  have one: "length colors = 1 \<longrightarrow> getColor fl colors max' v = Some (colors ! 0)"
    using g k(1) by auto
  show ?thesis
  proof (intro conjI)
    show "\<exists>k<length colors. getColor fl colors max' v = Some (colors ! k) \<and>
            fl (real k / ?N) \<le> ?q \<and>
            (\<forall>j<length colors. fl (real j / ?N) \<le> ?q \<longrightarrow> j \<le> k) \<and>
            (\<forall>i<length colors. (i \<le> k) = (fl (real i / ?N) \<le> ?q))"
      by (rule exI [of _ k]) (intro conjI k(1) g a b k(3))
    show "length colors = 1 \<longrightarrow> getColor fl colors max' v = Some (colors ! 0)" by (rule one)
  qed
qed

theorem getColor_bucket_witness:
  "mono (\<lambda>x::real. x) \<and> [''a'', ''b'', ''c'', ''d''] \<noteq> [] \<and> (0::real) < 4 \<and> (0::real) < 2 \<and>
   getColor (\<lambda>x. x) [''a'', ''b'', ''c'', ''d''] 4 2 = Some ''c'' \<and>
   getColor (\<lambda>x. x) [''a'', ''b'', ''c'', ''d''] 4 1.9 = Some ''b'' \<and>
   (\<exists>k<length [''a'', ''b'', ''c'', ''d''].
      getColor (\<lambda>x. x) [''a'', ''b'', ''c'', ''d''] 4 2 = Some ([''a'', ''b'', ''c'', ''d''] ! k) \<and>
      real k / real (length [''a'', ''b'', ''c'', ''d'']) \<le> 2 / 4 \<and>
      (\<forall>j<length [''a'', ''b'', ''c'', ''d''].
          real j / real (length [''a'', ''b'', ''c'', ''d'']) \<le> 2 / 4 \<longrightarrow> j \<le> k) \<and>
      (\<forall>i<length [''a'', ''b'', ''c'', ''d''].
          (i \<le> k) = (real i / real (length [''a'', ''b'', ''c'', ''d'']) \<le> 2 / 4)))"
proof -
  have h: "mono (\<lambda>x::real. x)" "[''a'', ''b'', ''c'', ''d''] \<noteq> []" "(0::real) < 4" "(0::real) < 2"
    by (simp_all add: mono_identity)
  have e1: "getColor (\<lambda>x. x) [''a'', ''b'', ''c'', ''d''] 4 2 = Some ''c''"
    by (simp add: getColor_def divide_js_def getColor_loop.simps)
  have e2: "getColor (\<lambda>x. x) [''a'', ''b'', ''c'', ''d''] 4 1.9 = Some ''b''"
    by (simp add: getColor_def divide_js_def getColor_loop.simps)
  note t = getColor_bucket [OF h, THEN conjunct1]
  show ?thesis
    by (intro conjI h e1 e2 t)
qed

text \<open>
  C5 (as amended). \<open>getColor\<close> returns \<open>null\<close> if and only if the scale is empty or the
  value is zero, and an entry of the scale otherwise. \<open>getCalendar\<close> gives a day the empty
  colour when \<open>getColor\<close> returns \<open>null\<close> for its value, and also when it returns an entry
  that is the empty string, which \<open>||\<close> takes for falsy like \<open>null\<close>; otherwise the day has
  the entry that \<open>getColor\<close> returns. With a scale whose only entry is the empty string, a
  day of value 3 has the empty colour, though \<open>getColor\<close> returns an entry of the scale.
\<close>

theorem getColor_null:
  "(getColor fl colors max' v = None \<longleftrightarrow> colors = [] \<or> v = 0) \<and>
   (\<forall>c. getColor fl colors max' v = Some c \<longrightarrow> c \<in> set colors) \<and>
   (\<forall>cal. getCalendar fl colors data emptyColor endDate startDate view nowS nowE = Inr cal \<longrightarrow>
      (\<forall>d\<in>set cal. color d =
         (case getColor fl colors (maxValue cal) (value' d) of
            None \<Rightarrow> emptyColor
          | Some c \<Rightarrow> if c = [] then emptyColor else c)))"
proof (intro conjI allI impI)
  show "getColor fl colors max' v = None \<longleftrightarrow> colors = [] \<or> v = 0"
    by (rule getColor_None_iff)
next
  fix c assume "getColor fl colors max' v = Some c"
  then show "c \<in> set colors" by (rule getColor_in_set)
next
  fix cal
  assume g: "getCalendar fl colors data emptyColor endDate startDate view nowS nowE = Inr cal"
  obtain s1 e1 where w:
    "widen view (resolveDate startDate nowS) (resolveDate endDate nowE) = (s1, e1)"
    by (cases "widen view (resolveDate startDate nowS) (resolveDate endDate nowE)")
  let ?days = "aggregate fl data s1 (nat (totalDays s1 e1))"
  let ?f = "\<lambda>d. \<lparr>date = date d, value' = value' d,
                 color = or_js (getColor fl colors (maxValue ?days) (value' d)) emptyColor\<rparr>"
  from g have cal: "cal = map ?f ?days"
    by (simp add: getCalendar_def w Let_def split: if_splits)
  have mx: "maxValue cal = maxValue ?days"
    unfolding cal by (rule maxValue_map) simp
  show "\<forall>d\<in>set cal. color d =
         (case getColor fl colors (maxValue cal) (value' d) of
            None \<Rightarrow> emptyColor
          | Some c \<Rightarrow> if c = [] then emptyColor else c)"
    unfolding mx by (auto simp: cal or_js_def)
qed

theorem getColor_null_witness:
  "getColor id [''a'', ''b'', ''c''] 5 0 = None \<and>
   getColor id [] 5 3 = None \<and>
   getColor id [''a'', ''b'', ''c''] 5 3 = Some ''b'' \<and>
   map color (projr (getCalendar id [''a'', ''b'', ''c''] exampleData ''#000''
      (Some (DateLike 1579132800000)) (Some (DateLike 1579046400000)) ''weekly'' 0 0)) =
     [''#000'', ''#000'', ''#000'', ''b'', ''c'', ''#000'', ''#000'']"
proof -
  let ?C = "[''a'', ''b'', ''c'']"
  let ?s = "Some (DateLike 1579046400000)" and ?e = "Some (DateLike 1579132800000)"
  note t = getColor_null [where fl = id and colors = ?C and max' = 5 and data = exampleData
      and emptyColor = "''#000''" and endDate = ?e and startDate = ?s and view = "''weekly''"
      and nowS = 0 and nowE = 0]
  have n1: "getColor id ?C 5 0 = None"
    using t [where v = 0, THEN conjunct1] by simp
  have n2: "getColor id [] 5 3 = None"
    using getColor_null [where fl = id and colors = "[]" and max' = 5 and v = 3,
        THEN conjunct1] by simp
  have g3: "getColor id ?C 5 3 = Some ''b''"
    by (simp add: getColor_def divide_js_def getColor_loop.simps)
  have g5: "getColor id ?C 5 5 = Some ''c''"
    by (simp add: getColor_def divide_js_def getColor_loop.simps)
  have ev: "map color (projr (getCalendar id ?C exampleData ''#000'' ?e ?s ''weekly'' 0 0)) =
     [''#000'', ''#000'', ''#000'', ''b'', ''c'', ''#000'', ''#000'']"
    by (simp add: getCalendar_example [OF Day_example(1) Day_example(2)] g3 g5 or_js_def)
  from n1 n2 g3 ev show ?thesis by (intro conjI)
qed

theorem getCalendar_empty_string_color:
  "getColor id [''''] 5 3 = Some '''' \<and>
   map color (projr (getCalendar id [''''] exampleData ''#000''
      (Some (DateLike 1579132800000)) (Some (DateLike 1579046400000)) ''weekly'' 0 0)) =
     [''#000'', ''#000'', ''#000'', ''#000'', ''#000'', ''#000'', ''#000'']"
proof -
  have g3: "getColor id [''''] 5 3 = Some ''''"
    by (simp add: getColor_def divide_js_def getColor_loop.simps)
  have g5: "getColor id [''''] 5 5 = Some ''''"
    by (simp add: getColor_def divide_js_def getColor_loop.simps)
  have ev: "map color (projr (getCalendar id [''''] exampleData ''#000''
      (Some (DateLike 1579132800000)) (Some (DateLike 1579046400000)) ''weekly'' 0 0)) =
     [''#000'', ''#000'', ''#000'', ''#000'', ''#000'', ''#000'', ''#000'']"
    by (simp add: getCalendar_example [OF Day_example(1) Day_example(2)] g3 g5 or_js_def)
  from g3 ev show ?thesis by (intro conjI)
qed

text \<open>
  C8. With \<open>allowOverflow\<close> true \<open>chunkMonths\<close> cuts the calendar into rows \<open>R\<close>, none of
  them empty. All entries of a row have the same \<open>getMonth\<close>, and the first entry of a row
  has a \<open>getMonth\<close> other than that of the last entry of the row before: a row starts at
  the first entry and wherever the month of an entry differs from the month of the entry
  before it, and nowhere else. In the rows returned for any flag and bounds, too, all
  entries of a row have the same \<open>getMonth\<close>. When the calendar is contiguous, then
  whatever the flag and the bounds, the entries of a row are days of one calendar month,
  and entries of two different rows are days of different calendar months: no month is
  split over two rows and no two months share a row.
\<close>

theorem chunkMonths_rows_are_months:
  fixes calendar :: "day list" and allowOverflow :: bool
  shows "\<exists>R rows. chunkMonths True calendar endDate startDate = Inr R \<and>
       concat R = calendar \<and>
       (\<forall>r\<in>set R. r \<noteq> []) \<and>
       (\<forall>r\<in>set R. \<forall>a\<in>set r. \<forall>b\<in>set r. Date_getMonth (date a) = Date_getMonth (date b)) \<and>
       (\<forall>i. Suc i < length R \<longrightarrow>
          Date_getMonth (date (hd (R ! Suc i))) \<noteq> Date_getMonth (date (last (R ! i)))) \<and>
       chunkMonths allowOverflow calendar endDate startDate = Inr rows \<and>
       (\<forall>r\<in>set rows. \<forall>a\<in>set r. \<forall>b\<in>set r.
          Date_getMonth (date a) = Date_getMonth (date b)) \<and>
       (contiguous calendar \<longrightarrow>
          (\<forall>r\<in>set R. \<forall>a\<in>set r. \<forall>b\<in>set r. sameMonth a b) \<and>
          (\<forall>i j. i < j \<and> j < length R \<longrightarrow>
             (\<forall>a\<in>set (R ! i). \<forall>b\<in>set (R ! j). \<not> sameMonth a b)) \<and>
          (\<forall>r\<in>set rows. \<forall>a\<in>set r. \<forall>b\<in>set r. sameMonth a b) \<and>
          (\<forall>i j. i < j \<and> j < length rows \<longrightarrow>
             (\<forall>a\<in>set (rows ! i). \<forall>b\<in>set (rows ! j). \<not> sameMonth a b)))"
proof -
  obtain R where R: "chunkMonths True calendar endDate startDate = Inr R" "concat R = calendar"
    "\<forall>r\<in>set R. r \<noteq> []"
    by (rule chunkMonths_rows [of calendar endDate startDate True])
  obtain rows where rows: "chunkMonths allowOverflow calendar endDate startDate = Inr rows"
    using chunkMonths_rows [of calendar endDate startDate allowOverflow] by blast
  note m = chunkMonths_getMonth [OF R(1)]
  note f = chunkMonths_filtered_getMonth [OF rows]
  have c: "contiguous calendar \<longrightarrow>
          (\<forall>r\<in>set R. \<forall>a\<in>set r. \<forall>b\<in>set r. sameMonth a b) \<and>
          (\<forall>i j. i < j \<and> j < length R \<longrightarrow>
             (\<forall>a\<in>set (R ! i). \<forall>b\<in>set (R ! j). \<not> sameMonth a b)) \<and>
          (\<forall>r\<in>set rows. \<forall>a\<in>set r. \<forall>b\<in>set r. sameMonth a b) \<and>
          (\<forall>i j. i < j \<and> j < length rows \<longrightarrow>
             (\<forall>a\<in>set (rows ! i). \<forall>b\<in>set (rows ! j). \<not> sameMonth a b))"
  proof (intro impI conjI)
    assume k: "contiguous calendar"
    show "\<forall>r\<in>set R. \<forall>a\<in>set r. \<forall>b\<in>set r. sameMonth a b"
      by (rule chunkMonths_filtered_sameMonth(1) [OF k R(1)])
    show "\<forall>i j. i < j \<and> j < length R \<longrightarrow>
             (\<forall>a\<in>set (R ! i). \<forall>b\<in>set (R ! j). \<not> sameMonth a b)"
      by (rule chunkMonths_filtered_sameMonth(2) [OF k R(1)])
    show "\<forall>r\<in>set rows. \<forall>a\<in>set r. \<forall>b\<in>set r. sameMonth a b"
      by (rule chunkMonths_filtered_sameMonth(1) [OF k rows])
    show "\<forall>i j. i < j \<and> j < length rows \<longrightarrow>
             (\<forall>a\<in>set (rows ! i). \<forall>b\<in>set (rows ! j). \<not> sameMonth a b)"
      by (rule chunkMonths_filtered_sameMonth(2) [OF k rows])
  qed
  show ?thesis
    by (rule exI [of _ R], rule exI [of _ rows]) (intro conjI R m rows f c)
qed

theorem chunkMonths_rows_are_months_witness:
  "contiguous (exampleCalendar 29 4) \<and>
   chunkMonths True (exampleCalendar 29 4) None (Some 2592000001) =
     Inr [[exampleDay 29, exampleDay 30], [exampleDay 31, exampleDay 32]] \<and>
   chunkMonths False (exampleCalendar 29 4) None (Some 2592000001) =
     Inr [[exampleDay 30], [exampleDay 31, exampleDay 32]] \<and>
   sameMonth (exampleDay 29) (exampleDay 30) \<and>
   sameMonth (exampleDay 31) (exampleDay 32) \<and>
   \<not> sameMonth (exampleDay 30) (exampleDay 31) \<and>
   Date_getMonth (date (exampleDay 31)) \<noteq> Date_getMonth (date (exampleDay 30))"
proof -
  let ?R = "[[exampleDay 29, exampleDay 30], [exampleDay 31, exampleDay 32]]"
  let ?F = "[[exampleDay 30], [exampleDay 31, exampleDay 32]]"
  have k: "contiguous (exampleCalendar 29 4)" by code_simp
  have e: "chunkMonths True (exampleCalendar 29 4) None (Some 2592000001) = Inr ?R"
    by code_simp
  have e': "chunkMonths False (exampleCalendar 29 4) None (Some 2592000001) = Inr ?F"
    by code_simp
  obtain R rows where R: "chunkMonths True (exampleCalendar 29 4) None (Some 2592000001) = Inr R \<and>
       concat R = exampleCalendar 29 4 \<and>
       (\<forall>r\<in>set R. r \<noteq> []) \<and>
       (\<forall>r\<in>set R. \<forall>a\<in>set r. \<forall>b\<in>set r. Date_getMonth (date a) = Date_getMonth (date b)) \<and>
       (\<forall>i. Suc i < length R \<longrightarrow>
          Date_getMonth (date (hd (R ! Suc i))) \<noteq> Date_getMonth (date (last (R ! i)))) \<and>
       chunkMonths False (exampleCalendar 29 4) None (Some 2592000001) = Inr rows \<and>
       (\<forall>r\<in>set rows. \<forall>a\<in>set r. \<forall>b\<in>set r.
          Date_getMonth (date a) = Date_getMonth (date b)) \<and>
       (contiguous (exampleCalendar 29 4) \<longrightarrow>
          (\<forall>r\<in>set R. \<forall>a\<in>set r. \<forall>b\<in>set r. sameMonth a b) \<and>
          (\<forall>i j. i < j \<and> j < length R \<longrightarrow>
             (\<forall>a\<in>set (R ! i). \<forall>b\<in>set (R ! j). \<not> sameMonth a b)) \<and>
          (\<forall>r\<in>set rows. \<forall>a\<in>set r. \<forall>b\<in>set r. sameMonth a b) \<and>
          (\<forall>i j. i < j \<and> j < length rows \<longrightarrow>
             (\<forall>a\<in>set (rows ! i). \<forall>b\<in>set (rows ! j). \<not> sameMonth a b)))"
    using chunkMonths_rows_are_months [where calendar = "exampleCalendar 29 4"
        and endDate = None and startDate = "Some 2592000001" and allowOverflow = False]
    by (elim exE)
  from R [THEN conjunct1] e have eq: "R = ?R" by simp
  note R5 = R [THEN conjunct2, THEN conjunct2, THEN conjunct2, THEN conjunct2]
  from R5 [THEN conjunct2, THEN conjunct1] e' have eq': "rows = ?F" by simp
  note adj = R5 [THEN conjunct1, unfolded eq]
  note con = R5 [THEN conjunct2, THEN conjunct2, THEN conjunct2, unfolded eq eq', THEN mp, OF k]
  have s: "sameMonth (exampleDay 29) (exampleDay 30)"
    using con [THEN conjunct1] by simp
  have s': "sameMonth (exampleDay 31) (exampleDay 32)"
    using con [THEN conjunct2, THEN conjunct2, THEN conjunct1] by simp
  have "(0::nat) < 1 \<and> 1 < length ?F" by simp
  from con [THEN conjunct2, THEN conjunct2, THEN conjunct2, rule_format, OF this,
      of "exampleDay 30" "exampleDay 31"]
  have n: "\<not> sameMonth (exampleDay 30) (exampleDay 31)" by simp
  from adj [rule_format, of 0]
  have g: "Date_getMonth (date (exampleDay 31)) \<noteq> Date_getMonth (date (exampleDay 30))" by simp
  show ?thesis by (intro conjI k e e' s s' n g)
qed




end
